theory Spec2Isabelle
  imports Complex_Main "HOL-Library.Word"
begin

unbundle bit_operations_syntax

section \<open>JavaScript values, numbers and errors\<close>

text \<open>
  The program is JavaScript. Every number it handles is an integer far below \<open>2 ^ 53\<close>
  in magnitude (character codes below \<open>2 ^ 16\<close>, words built from four of them, sums of
  five such values, a byte count times eight), so double arithmetic on them is exact and a
  number is modelled as an \<open>int\<close>. A string is the sequence of its UTF-16 code units,
  which is what \<open>split("")\<close> and \<open>charCodeAt(0)\<close> enumerate. Of an input that is not a
  string the program looks at nothing but its \<open>typeof\<close>.

  Each \<open>throw new Error(...)\<close> of the source is a constructor of \<open>error\<close> (the value
  appended to the message is left out), and a function that can throw returns
  \<open>error + 'a\<close> with \<open>Inl\<close> for the exception.
\<close>

datatype jsvalue =
    JSString "16 word list"
  | JSNumber int
  | JSBigInt int
  | JSBoolean bool
  | JSUndefined
  | JSNull
  | JSSymbol
  | JSObject    \<comment> \<open>any object, array or function\<close>

datatype error =
    UnsupportedInputType    \<comment> \<open>"unsupported input type: ..."\<close>
  | IncompleteBlock         \<comment> \<open>"incomplete block at the end of stream"\<close>
  | NegativeLength          \<comment> \<open>"negative length"\<close>
  | IncompleteWord          \<comment> \<open>"incomplete word"\<close>
  | IncorrectBlockSize      \<comment> \<open>"incorrect block size: ..." (sha1.js), "invalid block size: ..." (part_000)\<close>
  | NotUint32               \<comment> \<open>"not uint32: ..."\<close>
  | InvalidFNumber          \<comment> \<open>"invalid f[i] number: ..."\<close>
  | InvalidKNumber          \<comment> \<open>"invalid K[i] number: ..."\<close>
  | InvalidShiftAmount      \<comment> \<open>"invalid left shift amount: ..."\<close>
  | StreamSizeNotMultiple   \<comment> \<open>"stream size is not a multiple of the block size" (part_000)\<close>
  | InvalidArrayLength      \<comment> \<open>the RangeError of \<open>Array(z)\<close> for a negative \<open>z\<close> (part_000)\<close>

definition bnd :: "error + 'a \<Rightarrow> ('a \<Rightarrow> error + 'b) \<Rightarrow> error + 'b" where
  "bnd m k = (case m of Inl e \<Rightarrow> Inl e | Inr v \<Rightarrow> k v)"

text \<open>A loop whose body can throw: the first exception ends it.\<close>

fun foldM :: "('a \<Rightarrow> 's \<Rightarrow> error + 's) \<Rightarrow> 'a list \<Rightarrow> 's \<Rightarrow> error + 's" where
  "foldM g [] s = Inr s"
| "foldM g (x # xs) s = (case g x s of Inl e \<Rightarrow> Inl e | Inr s' \<Rightarrow> foldM g xs s')"

definition blockSizeBytes :: int where
  "blockSizeBytes = 64"

definition wordSizeBytes :: int where
  "wordSizeBytes = 4"

subsection \<open>The bitwise operators of the language\<close>

text \<open>
  \<open>^\<close>, \<open>&\<close>, \<open>|\<close>, \<open>~\<close> and \<open><<\<close> convert their operands with ToInt32 and give a
  signed 32-bit result; \<open>>>>\<close> converts its left operand with ToUint32 and gives an
  unsigned one; both shifts use the shift count modulo 32.
\<close>

definition ToInt32 :: "int \<Rightarrow> int" where
  "ToInt32 x = signed_take_bit 31 x"

definition ToUint32_js :: "int \<Rightarrow> int" where
  "ToUint32_js x = take_bit 32 x"

definition js_xor :: "int \<Rightarrow> int \<Rightarrow> int" where
  "js_xor x y = ToInt32 x XOR ToInt32 y"

definition js_and :: "int \<Rightarrow> int \<Rightarrow> int" where
  "js_and x y = ToInt32 x AND ToInt32 y"

definition js_or :: "int \<Rightarrow> int \<Rightarrow> int" where
  "js_or x y = ToInt32 x OR ToInt32 y"

definition js_not :: "int \<Rightarrow> int" where
  "js_not x = NOT (ToInt32 x)"

definition js_shl :: "int \<Rightarrow> int \<Rightarrow> int" where
  "js_shl x n = ToInt32 (push_bit (nat (ToUint32_js n mod 32)) (ToInt32 x))"

definition js_ushr :: "int \<Rightarrow> int \<Rightarrow> int" where
  "js_ushr x n = drop_bit (nat (ToUint32_js n mod 32)) (ToUint32_js x)"

text \<open>The remainder operator \<open>%\<close> truncates: its result has the sign of the dividend.\<close>

definition js_rem :: "int \<Rightarrow> int \<Rightarrow> int" where
  "js_rem a b = sgn a * (\<bar>a\<bar> mod \<bar>b\<bar>)"

text \<open>\<open>Math.ceil(a / b)\<close> for integers \<open>a\<close> and a positive \<open>b\<close>.\<close>

definition ceil_div :: "int \<Rightarrow> int \<Rightarrow> int" where
  "ceil_div a b = - ((- a) div b)"

section \<open>src/sha1.js\<close>

subsection \<open>uint32, checkUint32, isUint32\<close>

function uint32 :: "int \<Rightarrow> int" where
  "uint32 v = (if v < 0 then uint32 (v + (4294967295 + 1)) else js_rem v (4294967295 + 1))"
  by pat_completeness auto
termination
  by (relation "measure (\<lambda>v. nat (- v))") auto

declare uint32.simps [simp del]

definition isUint32 :: "int \<Rightarrow> bool" where
  "isUint32 x = (x \<ge> 0 \<and> x \<le> 4294967295)"

definition checkUint32 :: "int \<Rightarrow> error + unit" where
  "checkUint32 v = (if \<not> isUint32 v then Inl NotUint32 else Inr ())"

subsection \<open>f, K, ROTL\<close>

definition f :: "int \<Rightarrow> int \<Rightarrow> int \<Rightarrow> int \<Rightarrow> error + int" where
  "f t B C D =
     bnd (checkUint32 B) (\<lambda>_.
     bnd (checkUint32 C) (\<lambda>_.
     bnd (checkUint32 D) (\<lambda>_.
       if t < 0 \<or> t > 79 then Inl InvalidFNumber
       else if t < 20 then Inr (uint32 (js_or (js_and B C) (js_and (js_not B) D)))
       else if t < 40 then Inr (uint32 (js_xor (js_xor B C) D))
       else if t < 60 then Inr (uint32 (js_or (js_or (js_and B C) (js_and B D)) (js_and C D)))
       else Inr (uint32 (js_xor (js_xor B C) D)))))"

definition K :: "int \<Rightarrow> error + int" where
  "K t =
     (if t < 0 \<or> t > 79 then Inl InvalidKNumber
      else if t < 20 then Inr 0x5a827999
      else if t < 40 then Inr 0x6ed9eba1
      else if t < 60 then Inr 0x8f1bbcdc
      else Inr 0xca62c1d6)"

definition ROTL :: "int \<Rightarrow> int \<Rightarrow> error + int" where
  "ROTL tms v =
     (if \<not> isUint32 v then Inl NotUint32
      else if tms < 0 \<or> tms \<ge> 32 then Inl InvalidShiftAmount
      else Inr (uint32 (js_or (uint32 (js_shl v tms)) (js_ushr v (32 - tms)))))"

subsection \<open>distribute, words, addVec\<close>

text \<open>
  \<open>distribute\<close>, \<open>words\<close>, \<open>checkUint32\<close>, \<open>isUint32\<close> and \<open>K\<close> are the same text in
  both source files and are modelled once.
\<close>

function distribute :: "int \<Rightarrow> error + int list" where
  "distribute len =
     (if len < 0 then Inl NegativeLength
      else if len = 0 then Inr []
      else bnd (distribute (len div 256)) (\<lambda>r. Inr ([js_rem len 256] @ r)))"
  by pat_completeness auto
termination
  by (relation "measure nat") auto

declare distribute.simps [simp del]

function words :: "int list \<Rightarrow> error + int list" where
  "words stream =
     (if length stream = 0 then Inr []
      else if int (length stream) < wordSizeBytes then Inl IncompleteWord
      else (let word = foldl (\<lambda>s byte. s * 256 + byte) 0 (take (nat wordSizeBytes) stream)
            in bnd (words (drop (nat wordSizeBytes) stream)) (\<lambda>r. Inr ([word] @ r))))"
  by pat_completeness auto
termination
  by (relation "measure length") (auto simp: wordSizeBytes_def)

declare words.simps [simp del]

text \<open>
  \<open>addVec\<close> recurses on its first argument. Where the second one is exhausted first the
  source adds \<open>undefined\<close> and gets NaN, which an \<open>int\<close> cannot hold; the model ends the
  result there. Both arguments have five elements wherever the program calls it.
\<close>

fun addVec :: "int list \<Rightarrow> int list \<Rightarrow> int list" where
  "addVec [] ys = []"
| "addVec (x # restx) (y # resty) = uint32 (x + y) # addVec restx resty"
| "addVec (x # restx) [] = []"

subsection \<open>digest\<close>

text \<open>
  The three \<open>for\<close> loops of \<open>digest\<close>, each a recursion on its counter \<open>t\<close>. The
  first copies \<open>block[0..15]\<close> into the empty array \<open>W\<close>; the second appends \<open>W[16]\<close>
  to \<open>W[79]\<close> one by one (an assignment to \<open>W[t]\<close> when \<open>W\<close> has \<open>t\<close> elements),
  checking each.
\<close>

function copy_loop :: "int list \<Rightarrow> int \<Rightarrow> int list \<Rightarrow> int list" where
  "copy_loop block t W = (if t < 16 then copy_loop block (t + 1) (W @ [block ! nat t]) else W)"
  by pat_completeness auto
termination
  by (relation "measure (\<lambda>(block, t, W). nat (16 - t))") auto

declare copy_loop.simps [simp del]

function schedule_loop :: "int \<Rightarrow> int list \<Rightarrow> error + int list" where
  "schedule_loop t W =
     (if t < 80 then
        bnd (ROTL 1 (uint32 (js_xor (js_xor (js_xor (W ! nat (t - 3)) (W ! nat (t - 8)))
                                            (W ! nat (t - 14)))
                                    (W ! nat (t - 16))))) (\<lambda>w.
        bnd (checkUint32 w) (\<lambda>_. schedule_loop (t + 1) (W @ [w])))
      else Inr W)"
  by pat_completeness auto
termination
  by (relation "measure (\<lambda>(t, W). nat (80 - t))") auto

declare schedule_loop.simps [simp del]

text \<open>
  The third loop. The operands of \<open>+\<close> are evaluated from left to right, so \<open>ROTL\<close> throws
  before \<open>f\<close>, and \<open>f\<close> before \<open>K\<close>.
\<close>

type_synonym vars = "int \<times> int \<times> int \<times> int \<times> int"

function rounds_loop :: "int list \<Rightarrow> int \<Rightarrow> vars \<Rightarrow> error + vars" where
  "rounds_loop W t s =
     (if t < 80 then
        (case s of (a, b, c, d, e) \<Rightarrow>
           bnd (ROTL 5 a) (\<lambda>r.
           bnd (f t b c d) (\<lambda>fv.
           bnd (K t) (\<lambda>kv.
             let T = uint32 (r + fv + e + kv + W ! nat t) in
             bnd (ROTL 30 b) (\<lambda>c'.
             bnd (checkUint32 c') (\<lambda>_. rounds_loop W (t + 1) (T, a, c', c, d)))))))
      else Inr s)"
  by pat_completeness auto
termination
  by (relation "measure (\<lambda>(W, t, s). nat (80 - t))") auto

declare rounds_loop.simps [simp del]

text \<open>
  \<open>let [a, b, c, d, e] = sum\<close> (the model's \<open>sm\<close>) takes the first five elements. With
  fewer than five an \<open>undefined\<close> reaches \<open>ROTL\<close> or \<open>checkUint32\<close> within two rounds,
  which throw "not uint32". The program only passes five-element arrays.
\<close>

definition digest :: "int list \<Rightarrow> int list \<Rightarrow> error + int list" where
  "digest block sm =
     (if int (length block) \<noteq> blockSizeBytes div wordSizeBytes then Inl IncorrectBlockSize
      else
        bnd (schedule_loop 16 (copy_loop block 0 [])) (\<lambda>W.
          case sm of
            a # b # c # d # e # _ \<Rightarrow>
              bnd (rounds_loop W 0 (a, b, c, d, e)) (\<lambda>s.
                case s of (a, b, c, d, e) \<Rightarrow> Inr (addVec sm [a, b, c, d, e]))
          | _ \<Rightarrow> Inl NotUint32))"

subsection \<open>Generators\<close>

text \<open>
  \<open>bytes\<close>, \<open>padMessage\<close>, \<open>addZeros\<close>, \<open>addLength\<close> and \<open>blocks\<close> are generator
  functions. All of them are finite, so a generator is modelled by what a consumer that
  drains it observes: the values it yields, in order, and how it ends, normally (\<open>None\<close>)
  or by throwing (\<open>Some e\<close>).
\<close>

type_synonym 'a gen = "'a list \<times> error option"

text \<open>\<open>yield* g\<close> as the last thing done after yielding \<open>xs\<close>.\<close>

definition yield_then :: "'a list \<Rightarrow> 'a gen \<Rightarrow> 'a gen" where
  "yield_then xs g = (xs @ fst g, snd g)"

text \<open>
  What a caller that collects all the values of a generator gets (\<open>[...g]\<close>, or a
  \<open>for ... of\<close> loop that runs to its end): the values if the generator ended normally,
  its exception otherwise.
\<close>

definition drain :: "'a gen \<Rightarrow> error + 'a list" where
  "drain g = (case snd g of Some e \<Rightarrow> Inl e | None \<Rightarrow> Inr (fst g))"

definition bytes :: "jsvalue \<Rightarrow> int gen" where
  "bytes input =
     (case input of
        JSString s \<Rightarrow> (map (\<lambda>c. uint c) s, None)
      | _ \<Rightarrow> ([], Some UnsupportedInputType))"

definition addZeros :: "int \<Rightarrow> int gen" where
  "addZeros len =
     (let n = ceil_div (len + 9) blockSizeBytes;
          z = blockSizeBytes * n - 9 - len
      in (replicate (nat z) 0, None))"

definition addLength :: "int \<Rightarrow> int gen" where
  "addLength len =
     (case distribute (len * 8) of
        Inl e \<Rightarrow> ([], Some e)
      | Inr ds \<Rightarrow> (rev (take 8 (ds @ replicate 8 0)), None))"

text \<open>
  \<open>padMessage\<close> passes on what \<open>message\<close> yields and counts it; an exception of
  \<open>message\<close> ends it there.
\<close>

definition padMessage :: "int gen \<Rightarrow> int gen" where
  "padMessage message =
     (case message of
        (items, Some e) \<Rightarrow> (items, Some e)
      | (items, None) \<Rightarrow>
          (let len = int (length items)
           in yield_then (items @ [128])
                (case addZeros len of
                   (zs, Some e) \<Rightarrow> (zs, Some e)
                 | (zs, None) \<Rightarrow> yield_then zs (addLength len))))"

text \<open>
  The loop of \<open>blocks\<close> over the values of \<open>stream\<close>, with the buffer: the blocks
  yielded, and the exception of \<open>words\<close> that ended the loop or else the last buffer.
\<close>

fun blocks_loop :: "int list \<Rightarrow> int list \<Rightarrow> int list list \<times> (error + int list)" where
  "blocks_loop [] buf = ([], Inr buf)"
| "blocks_loop (byte # rest) buf =
     (let buf' = buf @ [byte] in
      if int (length buf') = blockSizeBytes then
        (case words buf' of
           Inl e \<Rightarrow> ([], Inl e)
         | Inr ws \<Rightarrow> (case blocks_loop rest [] of (ys, r) \<Rightarrow> (ws # ys, r)))
      else blocks_loop rest buf')"

definition blocks :: "int gen \<Rightarrow> int list gen" where
  "blocks stream =
     (case stream of (items, ending) \<Rightarrow>
        (case blocks_loop items [] of
           (ys, Inl e) \<Rightarrow> (ys, Some e)
         | (ys, Inr buf) \<Rightarrow>
             (case ending of
                Some e \<Rightarrow> (ys, Some e)
              | None \<Rightarrow> if length buf \<noteq> 0 then (ys, Some IncompleteBlock) else (ys, None))))"

subsection \<open>Rendering: toString(16) and join(" ")\<close>

definition hexdigit :: "nat \<Rightarrow> char" where
  "hexdigit n = ''0123456789abcdef'' ! n"

text \<open>The digits of a non-negative integer in base 16, most significant first.\<close>

function hex_digits :: "int \<Rightarrow> string" where
  "hex_digits n =
     (if n < 16 then [hexdigit (nat n)]
      else hex_digits (n div 16) @ [hexdigit (nat (n mod 16))])"
  by pat_completeness auto
termination
  by (relation "measure nat") auto

declare hex_digits.simps [simp del]

definition toString16 :: "int \<Rightarrow> string" where
  "toString16 n = (if n < 0 then CHR ''-'' # hex_digits (- n) else hex_digits n)"

fun join :: "string \<Rightarrow> string list \<Rightarrow> string" where
  "join sep [] = []"
| "join sep [x] = x"
| "join sep (x # y # ys) = x @ sep @ join sep (y # ys)"

subsection \<open>sha1\<close>

text \<open>
  The \<open>for ... of\<close> loop folds \<open>digest\<close> over the blocks that \<open>blocks(stream)\<close> yields;
  an exception of \<open>digest\<close> ends it at once, an exception of the generator after the
  blocks yielded before it.
\<close>

definition sha1 :: "jsvalue \<Rightarrow> error + string list" where
  "sha1 message =
     (case blocks (padMessage (bytes message)) of (bs, ending) \<Rightarrow>
        (case foldM digest bs [0x67452301, 0xefcdab89, 0x98badcfe, 0x10325476, 0xc3d2e1f0] of
           Inl e \<Rightarrow> Inl e
         | Inr hash \<Rightarrow>
             (case ending of
                Some e \<Rightarrow> Inl e
              | None \<Rightarrow> Inr (map toString16 hash))))"

section \<open>src/unnamed/part_000\<close>

text \<open>
  The list-based variant: every stage takes and returns a whole array, and \<open>blocks\<close> and
  \<open>digest\<close> recurse on the array. Its functions carry the suffix \<open>_rec\<close>. Its \<open>uint32\<close>
  returns \<open>ToUint32(v)\<close> at once (the statements after the \<open>return\<close> are dead code), and
  \<open>Math.floor(a / b)\<close> is the flooring division of integers.

  The recursion of \<open>blocks\<close> and \<open>digest\<close> is as deep as the message has blocks. The
  limits that the runtime sets to the stack and to memory are not modelled: what is proved
  of this variant holds of runs that stay within them.
\<close>

definition modulo :: "int \<Rightarrow> int \<Rightarrow> int" where
  "modulo a b = a - (a div b) * b"

definition ToUint32 :: "int \<Rightarrow> int" where
  "ToUint32 x = modulo x (2 ^ 32)"

definition uint32_rec :: "int \<Rightarrow> int" where
  "uint32_rec v = ToUint32 v"

definition f_rec :: "int \<Rightarrow> int \<Rightarrow> int \<Rightarrow> int \<Rightarrow> error + int" where
  "f_rec t B C D =
     bnd (checkUint32 B) (\<lambda>_.
     bnd (checkUint32 C) (\<lambda>_.
     bnd (checkUint32 D) (\<lambda>_.
       if t < 0 \<or> t > 79 then Inl InvalidFNumber
       else if t < 20 then Inr (uint32_rec (js_or (js_and B C) (js_and (js_not B) D)))
       else if t < 40 then Inr (uint32_rec (js_xor (js_xor B C) D))
       else if t < 60 then Inr (uint32_rec (js_or (js_or (js_and B C) (js_and B D)) (js_and C D)))
       else Inr (uint32_rec (js_xor (js_xor B C) D)))))"

definition ROTL_rec :: "int \<Rightarrow> int \<Rightarrow> error + int" where
  "ROTL_rec tms v =
     (if \<not> isUint32 v then Inl NotUint32
      else if tms < 0 \<or> tms \<ge> 32 then Inl InvalidShiftAmount
      else Inr (uint32_rec (js_or (uint32_rec (js_shl v tms)) (js_ushr v (32 - tms)))))"

fun addVec_rec :: "int list \<Rightarrow> int list \<Rightarrow> int list" where
  "addVec_rec [] ys = []"
| "addVec_rec (x # restx) (y # resty) = uint32_rec (x + y) # addVec_rec restx resty"
| "addVec_rec (x # restx) [] = []"

definition bytes_rec :: "jsvalue \<Rightarrow> error + int list" where
  "bytes_rec input =
     (case input of
        JSString s \<Rightarrow> Inr (map (\<lambda>c. uint c) s)
      | _ \<Rightarrow> Inl UnsupportedInputType)"

definition addEof :: "int list \<Rightarrow> int list" where
  "addEof message = message @ [128]"

definition addZeros_rec :: "int list \<Rightarrow> int \<Rightarrow> error + int list" where
  "addZeros_rec stream len =
     (let n = ceil_div (len + 9) blockSizeBytes;
          z = blockSizeBytes * n - 9 - len
      in if z < 0 then Inl InvalidArrayLength else Inr (stream @ replicate (nat z) 0))"

definition addLength_rec :: "int list \<Rightarrow> int \<Rightarrow> error + int list" where
  "addLength_rec stream len =
     bnd (distribute (len * 8)) (\<lambda>ds. Inr (stream @ rev (take 8 (ds @ replicate 8 0))))"

definition padMessage_rec :: "int list \<Rightarrow> error + int list" where
  "padMessage_rec message =
     bnd (addZeros_rec (addEof message) (int (length message))) (\<lambda>stream.
       addLength_rec stream (int (length message)))"

function blocks_rec :: "int list \<Rightarrow> error + int list list" where
  "blocks_rec stream =
     (if length stream = 0 then Inr []
      else if int (length stream) < blockSizeBytes then Inl IncompleteBlock
      else bnd (words (take (nat blockSizeBytes) stream)) (\<lambda>ws.
           bnd (blocks_rec (drop (nat blockSizeBytes) stream)) (\<lambda>r. Inr ([ws] @ r))))"
  by pat_completeness auto
termination
  by (relation "measure length") (auto simp: blockSizeBytes_def)

declare blocks_rec.simps [simp del]

function schedule_loop_rec :: "int \<Rightarrow> int list \<Rightarrow> error + int list" where
  "schedule_loop_rec t W =
     (if t < 80 then
        bnd (ROTL_rec 1 (uint32_rec (js_xor (js_xor (js_xor (W ! nat (t - 3)) (W ! nat (t - 8)))
                                                    (W ! nat (t - 14)))
                                            (W ! nat (t - 16))))) (\<lambda>w.
        bnd (checkUint32 w) (\<lambda>_. schedule_loop_rec (t + 1) (W @ [w])))
      else Inr W)"
  by pat_completeness auto
termination
  by (relation "measure (\<lambda>(t, W). nat (80 - t))") auto

declare schedule_loop_rec.simps [simp del]

function rounds_loop_rec :: "int list \<Rightarrow> int \<Rightarrow> vars \<Rightarrow> error + vars" where
  "rounds_loop_rec W t s =
     (if t < 80 then
        (case s of (a, b, c, d, e) \<Rightarrow>
           bnd (ROTL_rec 5 a) (\<lambda>r.
           bnd (f_rec t b c d) (\<lambda>fv.
           bnd (K t) (\<lambda>kv.
             let T = uint32_rec (r + fv + e + kv + W ! nat t) in
             bnd (ROTL_rec 30 b) (\<lambda>c'.
             bnd (checkUint32 c') (\<lambda>_. rounds_loop_rec W (t + 1) (T, a, c', c, d)))))))
      else Inr s)"
  by pat_completeness auto
termination
  by (relation "measure (\<lambda>(W, t, s). nat (80 - t))") auto

declare rounds_loop_rec.simps [simp del]

text \<open>\<open>block.forEach(checkUint32)\<close> checks the words in order and throws at the first bad one.\<close>

fun digest_rec :: "int list list \<Rightarrow> int list \<Rightarrow> error + int list" where
  "digest_rec [] sm = Inr sm"
| "digest_rec (block # rest) sm =
     (if length block \<noteq> 16 then Inl IncorrectBlockSize
      else
        bnd (foldM (\<lambda>w _. checkUint32 w) block ()) (\<lambda>_.
        bnd (schedule_loop_rec 16 (copy_loop block 0 [])) (\<lambda>W.
          case sm of
            a # b # c # d # e # _ \<Rightarrow>
              bnd (rounds_loop_rec W 0 (a, b, c, d, e)) (\<lambda>s.
                case s of (a, b, c, d, e) \<Rightarrow> digest_rec rest (addVec_rec sm [a, b, c, d, e]))
          | _ \<Rightarrow> Inl NotUint32)))"

declare digest_rec.simps(2) [simp del]

definition sha1_rec :: "jsvalue \<Rightarrow> error + string list" where
  "sha1_rec message =
     bnd (bytes_rec message) (\<lambda>bs.
     bnd (padMessage_rec bs) (\<lambda>stream.
       if js_rem (int (length stream)) blockSizeBytes \<noteq> 0 then Inl StreamSizeNotMultiple
       else
         bnd (blocks_rec stream) (\<lambda>bl.
         bnd (digest_rec bl [0x67452301, 0xefcdab89, 0x98badcfe, 0x10325476, 0xc3d2e1f0]) (\<lambda>hash.
           Inr (map toString16 hash)))))"

section \<open>The compression function in the words of the specification\<close>

text \<open>
  The specification works on unsigned 32-bit words with wrapping arithmetic. \<open>w32\<close> reads
  a number of the program as such a word, and \<open>uint\<close> gives the number back.
\<close>

abbreviation w32 :: "int \<Rightarrow> 32 word" where
  "w32 \<equiv> word_of_int"

text \<open>
  The selector \<open>f(t, B, C, D)\<close> (choice, parity, majority, parity) and the round constant
  \<open>K(t)\<close>, by round band.
\<close>

definition f_spec :: "nat \<Rightarrow> 32 word \<Rightarrow> 32 word \<Rightarrow> 32 word \<Rightarrow> 32 word" where
  "f_spec t B C D =
     (if t < 20 then (B AND C) OR (NOT B AND D)
      else if t < 40 then B XOR C XOR D
      else if t < 60 then (B AND C) OR (B AND D) OR (C AND D)
      else B XOR C XOR D)"

definition K_spec :: "nat \<Rightarrow> 32 word" where
  "K_spec t =
     (if t < 20 then 0x5a827999
      else if t < 40 then 0x6ed9eba1
      else if t < 60 then 0x8f1bbcdc
      else 0xca62c1d6)"

text \<open>
  The message schedule: \<open>W[t]\<close> is the block word for \<open>t\<close> in 0..15 and
  \<open>ROTL1(W[t-3] xor W[t-8] xor W[t-14] xor W[t-16])\<close> for \<open>t\<close> in 16..79.
\<close>

function schedule_spec :: "32 word list \<Rightarrow> nat \<Rightarrow> 32 word" where
  "schedule_spec block t =
     (if t < 16 then block ! t
      else word_rotl 1 (schedule_spec block (t - 3) XOR schedule_spec block (t - 8)
                        XOR schedule_spec block (t - 14) XOR schedule_spec block (t - 16)))"
  by pat_completeness auto
termination
  by (relation "measure snd") auto

declare schedule_spec.simps [simp del]

text \<open>
  Round \<open>t\<close>: \<open>T = ROTL5(a) + f(t,b,c,d) + e + K(t) + W[t]\<close> modulo \<open>2 ^ 32\<close>, then
  \<open>e=d; d=c; c=ROTL30(b); b=a; a=T\<close>. \<open>rounds_spec W n\<close> runs the rounds \<open>0\<close> to
  \<open>n - 1\<close>.
\<close>

type_synonym wvars = "32 word \<times> 32 word \<times> 32 word \<times> 32 word \<times> 32 word"

definition round_spec :: "(nat \<Rightarrow> 32 word) \<Rightarrow> nat \<Rightarrow> wvars \<Rightarrow> wvars" where
  "round_spec W t s =
     (case s of (a, b, c, d, e) \<Rightarrow>
        (let T = word_rotl 5 a + f_spec t b c d + e + K_spec t + W t
         in (T, a, word_rotl 30 b, c, d)))"

primrec rounds_spec :: "(nat \<Rightarrow> 32 word) \<Rightarrow> nat \<Rightarrow> wvars \<Rightarrow> wvars" where
  "rounds_spec W 0 s = s"
| "rounds_spec W (Suc t) s = round_spec W t (rounds_spec W t s)"

text \<open>
  The step for one block: the state \<open>S\<close> is unpacked into \<open>(a,b,c,d,e)\<close>, the 80 rounds
  run on the schedule of the block, and the new state is the elementwise wrapping sum of
  \<open>S\<close> and the final \<open>(a,b,c,d,e)\<close>.
\<close>

definition compress_spec :: "32 word list \<Rightarrow> 32 word list \<Rightarrow> 32 word list" where
  "compress_spec S block =
     (case rounds_spec (schedule_spec block) 80 (S ! 0, S ! 1, S ! 2, S ! 3, S ! 4) of
        (a, b, c, d, e) \<Rightarrow> map2 (+) S [a, b, c, d, e])"

definition uint5 :: "wvars \<Rightarrow> vars" where
  "uint5 s = (case s of (a, b, c, d, e) \<Rightarrow> (uint a, uint b, uint c, uint d, uint e))"

section \<open>Padding and block parsing in the words of the specification\<close>

text \<open>
  The number of zero bytes after the end marker for a message of \<open>L\<close> bytes:
  \<open>n = ceil((L + 9) / 64)\<close>, \<open>k = 64*n - 9 - L\<close>.
\<close>

definition zero_count :: "int \<Rightarrow> int" where
  "zero_count L = 64 * \<lceil>real_of_int (L + 9) / 64\<rceil> - 9 - L"

text \<open>The 8-byte big-endian encoding of a number.\<close>

definition be64 :: "int \<Rightarrow> int list" where
  "be64 n =
     [n div 2 ^ 56 mod 256, n div 2 ^ 48 mod 256, n div 2 ^ 40 mod 256, n div 2 ^ 32 mod 256,
      n div 2 ^ 24 mod 256, n div 2 ^ 16 mod 256, n div 2 ^ 8 mod 256, n mod 256]"

definition pad_spec :: "int list \<Rightarrow> int list" where
  "pad_spec m =
     m @ [128] @ replicate (nat (zero_count (int (length m)))) 0 @ be64 (int (length m) * 8)"

text \<open>
  The consecutive chunks of \<open>n\<close> elements of a list, in order, and the word of four
  bytes, most significant byte first.
\<close>

definition chunks :: "nat \<Rightarrow> 'a list \<Rightarrow> 'a list list" where
  "chunks n xs = map (\<lambda>i. take n (drop (i * n) xs)) [0..<length xs div n]"

definition be_word :: "int list \<Rightarrow> int" where
  "be_word bs = bs ! 0 * 2 ^ 24 + bs ! 1 * 2 ^ 16 + bs ! 2 * 2 ^ 8 + bs ! 3"

definition parse_spec :: "int list \<Rightarrow> int list list" where
  "parse_spec s = map (\<lambda>c. map be_word (chunks 4 c)) (chunks 64 s)"

text \<open>
  The driver: the state starts at the five fixed constants and the step is folded over the
  blocks of the padded message, in order.
\<close>

definition IV :: "32 word list" where
  "IV = [0x67452301, 0xefcdab89, 0x98badcfe, 0x10325476, 0xc3d2e1f0]"

definition sha1_spec :: "int list \<Rightarrow> 32 word list" where
  "sha1_spec m = foldl compress_spec IV (map (map w32) (parse_spec (pad_spec m)))"

text \<open>
  The value of a hexadecimal digit character (its position among the sixteen lowercase
  digits), by which a rendered word is read back as a number.
\<close>

definition hex_value :: "char \<Rightarrow> int" where
  "hex_value c = int (length (takeWhile (\<lambda>d. d \<noteq> c) ''0123456789abcdef''))"

section \<open>Numbers of the program as 32-bit words\<close>

lemma uint32_mod: "uint32 v = v mod 4294967296"
proof (induction v rule: uint32.induct)
  case (1 v)
  show ?case
  proof (cases "v < 0")
    case True
    then have "uint32 v = uint32 (v + 4294967296)" by (subst uint32.simps) simp
    also have "\<dots> = (v + 4294967296) mod 4294967296" using 1 True by simp
    finally show ?thesis by simp
  next
    case False
    then show ?thesis by (subst uint32.simps) (simp add: js_rem_def sgn_if)
  qed
qed

lemma uint32_word: "uint32 v = uint (w32 v)"
  by (simp add: uint32_mod uint_word_of_int)

lemma uint32_rec_eq: "uint32_rec v = uint32 v"
  by (simp add: uint32_rec_def ToUint32_def modulo_def uint32_mod minus_div_mult_eq_mod)

lemma isUint32_uint [simp]: "isUint32 (uint (w :: 32 word))"
proof -
  have "uint w < 2 ^ 32" using uint_bounded [of w] by simp
  then show ?thesis by (simp add: isUint32_def)
qed

lemma isUint32_iff: "isUint32 v \<longleftrightarrow> uint (w32 v) = v"
proof
  assume "isUint32 v"
  then show "uint (w32 v) = v" by (simp add: isUint32_def uint_word_of_int)
next
  assume "uint (w32 v) = v"
  then have "v = uint (w32 v)" by simp
  then show "isUint32 v" by (metis isUint32_uint)
qed

lemma w32_ToInt32 [simp]: "w32 (ToInt32 x) = w32 x"
  by (simp add: ToInt32_def word_of_int_eq_iff take_bit_signed_take_bit)

lemma w32_ToUint32_js [simp]: "w32 (ToUint32_js x) = w32 x"
  by (simp add: ToUint32_js_def word_of_int_eq_iff)

lemma w32_xor: "w32 (x XOR y) = w32 x XOR w32 y"
  by (rule bit_word_eqI) (simp add: bit_simps)
lemma w32_and: "w32 (x AND y) = w32 x AND w32 y"
  by (rule bit_word_eqI) (simp add: bit_simps)
lemma w32_or: "w32 (x OR y) = w32 x OR w32 y"
  by (rule bit_word_eqI) (simp add: bit_simps)
lemma w32_not: "w32 (NOT x) = NOT (w32 x)"
  by (rule bit_word_eqI) (simp add: bit_simps)
lemma w32_push_bit: "w32 (push_bit n x) = push_bit n (w32 x)"
  by (rule bit_word_eqI) (auto simp add: bit_simps)

lemma w32_js_xor [simp]: "w32 (js_xor x y) = w32 x XOR w32 y"
  by (simp add: js_xor_def w32_xor)
lemma w32_js_and [simp]: "w32 (js_and x y) = w32 x AND w32 y"
  by (simp add: js_and_def w32_and)
lemma w32_js_or [simp]: "w32 (js_or x y) = w32 x OR w32 y"
  by (simp add: js_or_def w32_or)
lemma w32_js_not [simp]: "w32 (js_not x) = NOT (w32 x)"
  by (simp add: js_not_def w32_not)

lemma w32_js_shl: "0 \<le> n \<Longrightarrow> n < 32 \<Longrightarrow> w32 (js_shl x n) = push_bit (nat n) (w32 x)"
  by (simp add: js_shl_def ToUint32_js_def take_bit_eq_mod w32_push_bit)

lemma js_ushr_word:
  "0 \<le> n \<Longrightarrow> n < 32 \<Longrightarrow> js_ushr x (32 - n) = uint (drop_bit ((32 - nat n) mod 32) (w32 x))"
proof -
  assume n: "0 \<le> n" "n < 32"
  have "take_bit 32 (32 - n) = 32 - n"
    using n by (simp add: take_bit_int_eq_self)
  moreover have "nat ((32 - n) mod 32) = (32 - nat n) mod 32"
  proof (cases "n = 0")
    case True
    then show ?thesis by simp
  next
    case False
    then have "(32 - n) mod 32 = 32 - n"
      using n by (intro mod_pos_pos_trivial) auto
    moreover have "(32 - nat n) mod 32 = 32 - nat n"
      using n False by (intro mod_less) auto
    ultimately show ?thesis using n by (simp only: nat_diff_distrib) simp
  qed
  ultimately have k: "nat (take_bit 32 (32 - n) mod 32) = (32 - nat n) mod 32"
    by simp
  have "uint (drop_bit k (w32 x)) = drop_bit k (take_bit 32 x)" for k
    by (simp add: unsigned_drop_bit_eq uint_word_of_int_eq)
  then show ?thesis by (simp add: js_ushr_def ToUint32_js_def k)
qed

lemma word_rotl_32:
  "word_rotl n (x :: 32 word) = push_bit (n mod 32) x OR drop_bit ((32 - n mod 32) mod 32) x"
proof (rule bit_word_eqI)
  fix k assume k: "k < LENGTH(32)"
  define m where "m = n mod 32"
  have m: "m < 32" by (simp add: m_def)
  have "bit (word_rotl n x) k = bit x ((k + (32 - m)) mod 32)"
    using k by (simp add: bit_word_rotl_iff m_def)
  also have "\<dots> = bit (push_bit m x OR drop_bit ((32 - m) mod 32) x) k"
  proof (cases "m = 0")
    case True
    then show ?thesis using k by (auto simp: bit_simps)
  next
    case False
    show ?thesis
    proof (cases "m \<le> k")
      case True
      then have "(k + (32 - m)) mod 32 = k - m" using k m
        by (simp add: mod_if)
      moreover have "\<not> bit x (32 + k - m)" using True m
        by (auto dest!: bit_imp_le_length)
      ultimately show ?thesis using k m False True by (auto simp: bit_simps)
    next
      case False
      then have "(k + (32 - m)) mod 32 = k + (32 - m)" using k m by simp
      then show ?thesis using k m False \<open>m \<noteq> 0\<close> by (auto simp: bit_simps add.commute)
    qed
  qed
  finally show "bit (word_rotl n x) k = bit (push_bit (n mod 32) x OR drop_bit ((32 - n mod 32) mod 32) x) k"
    by (simp add: m_def)
qed

lemma ROTL_word:
  assumes "0 \<le> n" "n < 32"
  shows "ROTL n (uint (w :: 32 word)) = Inr (uint (word_rotl (nat n) w))"
proof -
  have n: "nat n mod 32 = nat n" using assms by simp
  have "uint32 (js_or (uint32 (js_shl (uint w) n)) (js_ushr (uint w) (32 - n)))
        = uint (push_bit (nat n) w OR drop_bit ((32 - nat n) mod 32) w)"
    using assms by (simp add: uint32_word w32_js_shl js_ushr_word)
  then show ?thesis using assms by (simp add: ROTL_def word_rotl_32 n)
qed


lemma checkUint32_uint [simp]: "checkUint32 (uint (w :: 32 word)) = Inr ()"
  by (simp add: checkUint32_def)

lemma bnd_Inr [simp]: "bnd (Inr v) k = k v"
  by (simp add: bnd_def)

lemma bnd_Inl [simp]: "bnd (Inl e) k = Inl e"
  by (simp add: bnd_def)

lemma f_word:
  assumes "0 \<le> t" "t \<le> 79"
  shows "f t (uint b) (uint c) (uint d) = Inr (uint (f_spec (nat t) b c d))"
proof -
  have "t < 20 \<longleftrightarrow> nat t < 20" "t < 40 \<longleftrightarrow> nat t < 40" "t < 60 \<longleftrightarrow> nat t < 60"
    using assms by linarith+
  then show ?thesis
    using assms by (simp add: f_def f_spec_def uint32_word xor.assoc or.assoc)
qed

lemma K_word:
  assumes "0 \<le> t" "t \<le> 79"
  shows "K t = Inr (uint (K_spec (nat t)))"
proof -
  have "t < 20 \<longleftrightarrow> nat t < 20" "t < 40 \<longleftrightarrow> nat t < 40" "t < 60 \<longleftrightarrow> nat t < 60"
    using assms by linarith+
  then show ?thesis
    using assms by (simp add: K_def K_spec_def)
qed

lemma uint32_sum5:
  "uint32 (uint r + uint fv + e + uint kv + x) = uint (r + fv + w32 e + kv + w32 x)"
  by (simp add: uint32_word wi_hom_syms)

lemma rounds_loop_unfold:
  assumes "0 \<le> t" "t < 80" "isUint32 a" "isUint32 b" "isUint32 c" "isUint32 d"
  shows "rounds_loop W t (a, b, c, d, e) =
         rounds_loop W (t + 1)
           (uint (word_rotl 5 (w32 a) + f_spec (nat t) (w32 b) (w32 c) (w32 d) + w32 e
                  + K_spec (nat t) + w32 (W ! nat t)),
            a, uint (word_rotl 30 (w32 b)), c, d)"
proof -
  obtain wa wb wc wd :: "32 word"
    where w: "a = uint wa" "b = uint wb" "c = uint wc" "d = uint wd"
    using assms(3-6) by (metis isUint32_iff)
  show ?thesis
    unfolding w
    by (subst rounds_loop.simps)
       (use assms(1,2) in \<open>simp add: ROTL_word f_word K_word uint32_sum5\<close>)
qed

lemma rounds_loop_done: "80 \<le> t \<Longrightarrow> rounds_loop W t s = Inr s"
  by (subst rounds_loop.simps) simp

lemma uint32_xor4:
  "uint32 (js_xor (js_xor (js_xor p q) r) s) = uint (w32 p XOR w32 q XOR w32 r XOR w32 s)"
  by (simp add: uint32_word xor.assoc)

lemma schedule_loop_unfold:
  assumes "t < 80"
  shows "schedule_loop t W =
         schedule_loop (t + 1)
           (W @ [uint (word_rotl 1 (w32 (W ! nat (t - 3)) XOR w32 (W ! nat (t - 8))
                                    XOR w32 (W ! nat (t - 14)) XOR w32 (W ! nat (t - 16))))])"
  by (subst schedule_loop.simps) (use assms in \<open>simp add: uint32_xor4 ROTL_word\<close>)

lemma schedule_loop_done: "80 \<le> t \<Longrightarrow> schedule_loop t W = Inr W"
  by (subst schedule_loop.simps) simp

lemma copy_loop_unfold: "t < 16 \<Longrightarrow> copy_loop block t W = copy_loop block (t + 1) (W @ [block ! nat t])"
  by (subst copy_loop.simps) simp

lemma copy_loop_done: "16 \<le> t \<Longrightarrow> copy_loop block t W = W"
  by (subst copy_loop.simps) simp

section \<open>The functions of part_000 compute what those of sha1.js do\<close>

lemma f_rec_eq: "f_rec t B C D = f t B C D"
  by (simp add: f_rec_def f_def uint32_rec_eq)

lemma ROTL_rec_eq: "ROTL_rec n v = ROTL n v"
  by (simp add: ROTL_rec_def ROTL_def uint32_rec_eq)

lemma addVec_rec_eq: "addVec_rec xs ys = addVec xs ys"
  by (induction xs ys rule: addVec.induct) (simp_all add: uint32_rec_eq)

lemma schedule_loop_rec_eq: "schedule_loop_rec t W = schedule_loop t W"
proof (induction t W rule: schedule_loop.induct)
  case (1 t W)
  show ?case
  proof (cases "t < 80")
    case True
    show ?thesis
      apply (subst schedule_loop_rec.simps)
      apply (subst schedule_loop.simps)
      apply (simp add: True ROTL_rec_eq uint32_rec_eq bnd_def 1 split: sum.splits)
      done
  next
    case False
    then show ?thesis
      by (subst schedule_loop_rec.simps, subst schedule_loop.simps) simp
  qed
qed

lemma rounds_loop_rec_eq: "rounds_loop_rec W t s = rounds_loop W t s"
proof (induction W t s rule: rounds_loop.induct)
  case (1 W t s)
  show ?case
  proof (cases "t < 80")
    case True
    obtain a b c d e where s: "s = (a, b, c, d, e)" by (cases s) auto
    show ?thesis
      apply (subst rounds_loop_rec.simps)
      apply (subst rounds_loop.simps)
      apply (simp add: True s ROTL_rec_eq f_rec_eq uint32_rec_eq bnd_def Let_def 1 split: sum.splits)
      done
  next
    case False
    then show ?thesis
      by (subst rounds_loop_rec.simps, subst rounds_loop.simps) simp
  qed
qed

lemma digest_rec_Cons:
  "digest_rec (block # rest) sm =
     (if length block \<noteq> 16 then Inl IncorrectBlockSize
      else bnd (foldM (\<lambda>w _. checkUint32 w) block ()) (\<lambda>_.
           bnd (digest block sm) (digest_rec rest)))"
  by (simp add: digest_rec.simps(2) digest_def schedule_loop_rec_eq rounds_loop_rec_eq
        addVec_rec_eq bnd_def blockSizeBytes_def wordSizeBytes_def
      split: sum.splits list.splits prod.splits)

section \<open>Unfolding the recursions on concrete inputs\<close>

lemma js_rem_nonneg: "0 \<le> a \<Longrightarrow> 0 < b \<Longrightarrow> js_rem a b = a mod b"
  by (cases "a = 0") (simp_all add: js_rem_def)

lemma words_Nil: "words [] = Inr []"
  by (subst words.simps) simp

lemma words_Cons4:
  "words (b0 # b1 # b2 # b3 # rest) =
   bnd (words rest) (\<lambda>r. Inr (((((0 * 256 + b0) * 256 + b1) * 256 + b2) * 256 + b3) # r))"
  by (subst words.simps) (simp add: wordSizeBytes_def numeral_eq_Suc)

lemma distribute_0: "distribute 0 = Inr []"
  by (subst distribute.simps) simp

lemma distribute_pos:
  "0 < n \<Longrightarrow> distribute n = bnd (distribute (n div 256)) (\<lambda>r. Inr ((n mod 256) # r))"
  by (subst distribute.simps) (simp add: js_rem_nonneg)

lemma hex_digits_small: "n < 16 \<Longrightarrow> hex_digits n = [hexdigit (nat n)]"
  by (subst hex_digits.simps) simp

lemma hex_digits_big:
  "16 \<le> n \<Longrightarrow> hex_digits n = hex_digits (n div 16) @ [hexdigit (nat (n mod 16))]"
  by (subst hex_digits.simps) simp

lemma replicate_num: "replicate (numeral k) x = x # replicate (pred_numeral k) x"
  by (simp add: numeral_eq_Suc)

lemma blocks_rec_Nil: "blocks_rec [] = Inr []"
  by (subst blocks_rec.simps) simp

lemma blocks_rec_unfold:
  "64 \<le> length stream \<Longrightarrow>
   blocks_rec stream =
     bnd (words (take 64 stream)) (\<lambda>ws.
     bnd (blocks_rec (drop 64 stream)) (\<lambda>r. Inr (ws # r)))"
  by (subst blocks_rec.simps) (auto simp: blockSizeBytes_def)

lemmas eval_simps =
  words_Nil words_Cons4 distribute_0 distribute_pos hex_digits_small hex_digits_big
  rounds_loop_unfold rounds_loop_done schedule_loop_unfold schedule_loop_done
  copy_loop_unfold copy_loop_done isUint32_def word_rotl_32 f_spec_def K_spec_def
  uint32_mod hexdigit_def toString16_def replicate_num
  blockSizeBytes_def wordSizeBytes_def ceil_div_def digest_def

lemmas pipeline_simps =
  sha1_def bytes_def padMessage_def yield_then_def addZeros_def addLength_def blocks_def

lemmas pipeline_rec_simps =
  sha1_rec_def bytes_rec_def padMessage_rec_def addEof_def addZeros_rec_def addLength_rec_def
  js_rem_nonneg blocks_rec_Nil blocks_rec_unfold digest_rec_Cons checkUint32_def

section \<open>Rotation and rendering\<close>

lemma word_rotl_back:
  assumes "0 < r" "r < 32"
  shows "word_rotl (32 - r) (word_rotl r (x :: 32 word)) = x"
proof (rule bit_word_eqI)
  fix k assume k: "k < LENGTH(32)"
  have "((k + r) mod 32 + (32 - r)) mod 32 = k"
  proof (cases "k + r < 32")
    case True
    then show ?thesis using assms k by simp
  next
    case False
    then have "(k + r) mod 32 = k + r - 32" using assms k by (simp add: mod_if)
    then show ?thesis using assms k False by simp
  qed
  moreover have "(k + (32 - (32 - r) mod 32)) mod 32 = (k + r) mod 32"
    using assms by simp
  ultimately show "bit (word_rotl (32 - r) (word_rotl r x)) k = bit x k"
    using k assms by (simp add: bit_word_rotl_iff)
qed

lemma ROTL_roundtrip:
  assumes "isUint32 w" "1 \<le> r" "r \<le> 31"
  shows "bnd (ROTL r w) (ROTL (32 - r)) = Inr w"
proof -
  obtain x :: "32 word" where w: "w = uint x"
    using assms(1) by (metis isUint32_iff)
  have "nat (32 - r) = 32 - nat r" using assms by simp
  moreover have "0 < nat r" "nat r < 32" using assms by simp_all
  ultimately show ?thesis
    using assms by (simp add: w ROTL_word word_rotl_back)
qed

lemma length_hex_digits:
  "0 < k \<Longrightarrow> n < 16 ^ k \<Longrightarrow> length (hex_digits n) \<le> k"
proof (induction k arbitrary: n)
  case 0
  then show ?case by simp
next
  case (Suc k)
  show ?case
  proof (cases "n < 16")
    case True
    then show ?thesis by (subst hex_digits.simps) simp
  next
    case False
    then have k: "0 < k" using Suc.prems by (cases k) auto
    have "n div 16 < 16 ^ k" using Suc.prems by simp
    then have "length (hex_digits (n div 16)) \<le> k" using k by (rule Suc.IH [rotated])
    then show ?thesis using False by (subst hex_digits.simps) simp
  qed
qed

lemma toString16_short:
  assumes "0 \<le> w" "w < 2 ^ 28"
  shows "length (toString16 w) < 8"
proof -
  have "w < 16 ^ 7" using assms by simp
  then have "length (hex_digits w) \<le> 7" by (intro length_hex_digits) simp_all
  then show ?thesis using assms by (simp add: toString16_def)
qed

section \<open>The refinement of the compression step\<close>

lemma copy_loop_upt:
  "0 \<le> t \<Longrightarrow> t \<le> 16 \<Longrightarrow> copy_loop block t W = W @ map (\<lambda>i. block ! i) [nat t..<16]"
proof (induction block t W rule: copy_loop.induct)
  case (1 block t W)
  show ?case
  proof (cases "t < 16")
    case True
    then have "copy_loop block t W = copy_loop block (t + 1) (W @ [block ! nat t])"
      by (rule copy_loop_unfold)
    also have "\<dots> = (W @ [block ! nat t]) @ map (\<lambda>i. block ! i) [nat (t + 1)..<16]"
      using 1 True by simp
    also have "[nat t..<16] = nat t # [nat (t + 1)..<16]"
      using 1 True by (simp add: upt_conv_Cons nat_add_distrib)
    then have "(W @ [block ! nat t]) @ map (\<lambda>i. block ! i) [nat (t + 1)..<16]
               = W @ map (\<lambda>i. block ! i) [nat t..<16]"
      by simp
    finally show ?thesis .
  next
    case False
    then show ?thesis using 1 by (simp add: copy_loop_done)
  qed
qed

lemma copy_loop_block: "length block = 16 \<Longrightarrow> copy_loop block 0 [] = block"
  using copy_loop_upt [of 0 block "[]"] map_nth [of block] by simp

lemma schedule_loop_inv:
  assumes "16 \<le> n" "n \<le> 80" "length W = n" "\<forall>i<n. w32 (W ! i) = schedule_spec bw i"
  shows "\<exists>W'. schedule_loop (int n) W = Inr W' \<and> length W' = 80 \<and>
              (\<forall>i<80. w32 (W' ! i) = schedule_spec bw i) \<and> take n W' = W"
  using assms
proof (induction "80 - n" arbitrary: n W)
  case 0
  then have "n = 80" by simp
  then show ?case using 0 by (simp add: schedule_loop_done)
next
  case (Suc k)
  then have n: "n < 80" by simp
  define x where "x = word_rotl 1 (w32 (W ! nat (int n - 3)) XOR w32 (W ! nat (int n - 8))
                                    XOR w32 (W ! nat (int n - 14)) XOR w32 (W ! nat (int n - 16)))"
  have unfold: "schedule_loop (int n) W = schedule_loop (int (Suc n)) (W @ [uint x])"
    using n by (simp add: schedule_loop_unfold x_def add.commute)
  have idx: "nat (int n - 3) = n - 3" "nat (int n - 8) = n - 8"
            "nat (int n - 14) = n - 14" "nat (int n - 16) = n - 16"
    by simp_all
  have x: "x = schedule_spec bw n"
    using Suc.prems(1,4) by (subst schedule_spec.simps) (simp add: x_def idx)
  have inv: "\<forall>i<Suc n. w32 ((W @ [uint x]) ! i) = schedule_spec bw i"
    using Suc.prems(3,4) x by (auto simp: nth_append less_Suc_eq)
  have "\<exists>W'. schedule_loop (int (Suc n)) (W @ [uint x]) = Inr W' \<and> length W' = 80 \<and>
              (\<forall>i<80. w32 (W' ! i) = schedule_spec bw i) \<and> take (Suc n) W' = W @ [uint x]"
    using Suc.hyps(2) Suc.prems n inv by (intro Suc.hyps(1)) auto
  then obtain W' where W': "schedule_loop (int (Suc n)) (W @ [uint x]) = Inr W'" "length W' = 80"
      "\<forall>i<80. w32 (W' ! i) = schedule_spec bw i" "take (Suc n) W' = W @ [uint x]"
    by blast
  have "take n W' = take n (take (Suc n) W')" by simp
  also have "\<dots> = W" using W'(4) Suc.prems(3) by simp
  finally show ?case using unfold W' by simp
qed

lemma schedule_of_block:
  assumes "length block = 16"
  shows "\<exists>W. schedule_loop 16 (copy_loop block 0 []) = Inr W \<and> length W = 80 \<and>
             (\<forall>i<80. w32 (W ! i) = schedule_spec (map w32 block) i) \<and> take 16 W = block"
proof -
  have "\<forall>i<16. w32 (block ! i) = schedule_spec (map w32 block) i"
    using assms by (subst schedule_spec.simps) simp
  then show ?thesis
    using schedule_loop_inv [of 16 block "map w32 block"] assms
    by (simp add: copy_loop_block)
qed

lemma uint5_round:
  assumes "n < 80"
  shows "rounds_loop W (int n) (uint5 s) =
         rounds_loop W (int (Suc n)) (uint5 (round_spec (\<lambda>i. w32 (W ! i)) n s))"
proof -
  obtain a b c d e where s: "s = (a, b, c, d, e)" by (cases s) auto
  show ?thesis
    using assms
    by (simp add: s uint5_def round_spec_def rounds_loop_unfold add.commute [of 1])
qed

lemma rounds_spec_cong:
  "(\<And>i. i < n \<Longrightarrow> W i = W' i) \<Longrightarrow> rounds_spec W n s = rounds_spec W' n s"
  by (induction n) (simp_all add: round_spec_def)

lemma rounds_loop_inv:
  assumes "n \<le> 80"
  shows "rounds_loop W (int n) (uint5 (rounds_spec (\<lambda>i. w32 (W ! i)) n s)) =
         Inr (uint5 (rounds_spec (\<lambda>i. w32 (W ! i)) 80 s))"
  using assms
proof (induction "80 - n" arbitrary: n)
  case 0
  then have "n = 80" by simp
  then show ?case by (simp add: rounds_loop_done)
next
  case (Suc k)
  then have n: "n < 80" by simp
  have "rounds_loop W (int n) (uint5 (rounds_spec (\<lambda>i. w32 (W ! i)) n s)) =
        rounds_loop W (int (Suc n)) (uint5 (rounds_spec (\<lambda>i. w32 (W ! i)) (Suc n) s))"
    using n by (simp add: uint5_round)
  also have "\<dots> = Inr (uint5 (rounds_spec (\<lambda>i. w32 (W ! i)) 80 s))"
    using Suc.hyps(2) n by (intro Suc.hyps(1)) auto
  finally show ?case .
qed

lemma uint32_add: "uint32 (uint x + uint y) = uint (x + (y :: 32 word))"
  by (simp add: uint32_word wi_hom_syms)

lemma digest_word:
  assumes "length block = 16"
  shows "digest block [uint s0, uint s1, uint s2, uint s3, uint s4] =
         Inr (map uint (compress_spec [s0, s1, s2, s3, s4] (map w32 block)))"
proof -
  obtain W where W: "schedule_loop 16 (copy_loop block 0 []) = Inr W" "length W = 80"
      "\<forall>i<80. w32 (W ! i) = schedule_spec (map w32 block) i"
    using schedule_of_block [OF assms] by blast
  have spec: "rounds_spec (\<lambda>i. w32 (W ! i)) 80 s = rounds_spec (schedule_spec (map w32 block)) 80 s" for s
    using W(3) by (intro rounds_spec_cong) simp
  have "rounds_loop W 0 (uint5 (s0, s1, s2, s3, s4)) =
        Inr (uint5 (rounds_spec (schedule_spec (map w32 block)) 80 (s0, s1, s2, s3, s4)))"
    using rounds_loop_inv [of 0 W "(s0, s1, s2, s3, s4)"] by (simp add: spec)
  then show ?thesis
    using assms W(1)
    by (simp add: digest_def blockSizeBytes_def wordSizeBytes_def compress_spec_def uint5_def
          uint32_add split: prod.splits)
qed




section \<open>The block parser\<close>

lemma chunks_short: "length xs < n \<Longrightarrow> chunks n xs = []"
  by (simp add: chunks_def)

lemma chunks_append:
  assumes "length c = n" "0 < n"
  shows "chunks n (c @ rest) = c # chunks n rest"
proof -
  have "length (c @ rest) div n = Suc (length rest div n)"
    using assms by simp
  then have "chunks n (c @ rest) =
      map (\<lambda>i. take n (drop (i * n) (c @ rest))) (0 # map Suc [0..<length rest div n])"
    by (simp add: chunks_def upt_conv_Cons map_Suc_upt del: upt_Suc)
  also have "\<dots> = c # chunks n rest"
    using assms by (simp add: chunks_def comp_def)
  finally show ?thesis .
qed

lemma chunks_split:
  assumes "n \<le> length xs" "0 < n"
  shows "chunks n xs = take n xs # chunks n (drop n xs)"
proof -
  have "chunks n (take n xs @ drop n xs) = take n xs # chunks n (drop n xs)"
    using assms by (intro chunks_append) simp_all
  then show ?thesis by simp
qed

lemma take4:
  assumes "4 \<le> length s"
  shows "take 4 s = [s ! 0, s ! 1, s ! 2, s ! 3]"
proof -
  obtain a b c d r where "s = a # b # c # d # r"
    using assms by (auto simp: numeral_eq_Suc Suc_le_length_iff)
  then show ?thesis by simp
qed

lemma foldl_be_word:
  "4 \<le> length s \<Longrightarrow> foldl (\<lambda>s byte. s * 256 + byte) 0 (take 4 s) = be_word (take 4 s)"
  by (simp add: take4 be_word_def)

lemma words_parse:
  "words s = (if length s mod 4 = 0 then Inr (map be_word (chunks 4 s)) else Inl IncompleteWord)"
proof (induction s rule: words.induct)
  case (1 stream)
  show ?case
  proof (cases "length stream < 4")
    case True
    then show ?thesis
      by (subst words.simps) (auto simp: wordSizeBytes_def chunks_short)
  next
    case False
    then have len: "4 \<le> length stream" by simp
    have m: "(length stream - 4) mod 4 = length stream mod 4"
      using len by (simp add: le_mod_geq)
    have ne: "stream \<noteq> []" using len by auto
    have IH: "words (drop 4 stream) =
        (if length stream mod 4 = 0 then Inr (map be_word (chunks 4 (drop 4 stream)))
         else Inl IncompleteWord)"
      using 1 [OF _ _ refl] False len ne by (simp add: wordSizeBytes_def m)
    show ?thesis
      using len False ne
      by (subst words.simps)
         (simp add: wordSizeBytes_def IH foldl_be_word chunks_split [of 4 stream])
  qed
qed


lemma blocks_rec_parse:
  "blocks_rec s = (if length s mod 64 = 0 then Inr (parse_spec s) else Inl IncompleteBlock)"
proof (induction s rule: blocks_rec.induct)
  case (1 stream)
  show ?case
  proof (cases "length stream < 64")
    case True
    then show ?thesis
      by (subst blocks_rec.simps) (auto simp: blockSizeBytes_def parse_spec_def chunks_short)
  next
    case False
    then have len: "64 \<le> length stream" by simp
    have ne: "stream \<noteq> []" using len by auto
    have m: "(length stream - 64) mod 64 = length stream mod 64"
      using len by (simp add: le_mod_geq)
    have w: "words (take 64 stream) = Inr (map be_word (chunks 4 (take 64 stream)))"
      using len by (simp add: words_parse min_def)
    have IH: "blocks_rec (drop 64 stream) =
        (if length stream mod 64 = 0 then Inr (parse_spec (drop 64 stream))
         else Inl IncompleteBlock)"
      using 1 False len ne w
      by (simp add: blockSizeBytes_def m)
    show ?thesis
      using len False ne
      by (subst blocks_rec.simps)
         (simp add: blockSizeBytes_def IH w parse_spec_def chunks_split [of 64 stream])
  qed
qed

lemma blocks_loop_fill:
  "length buf + length c < 64 \<Longrightarrow> blocks_loop c buf = ([], Inr (buf @ c))"
  by (induction c arbitrary: buf) (simp_all add: blockSizeBytes_def Let_def)

lemma blocks_loop_block:
  "length buf + length c = 64 \<Longrightarrow> c \<noteq> [] \<Longrightarrow>
   blocks_loop (c @ rest) buf =
     (case words (buf @ c) of
        Inl e \<Rightarrow> ([], Inl e)
      | Inr ws \<Rightarrow> (case blocks_loop rest [] of (ys, r) \<Rightarrow> (ws # ys, r)))"
proof (induction c arbitrary: buf)
  case Nil
  then show ?case by simp
next
  case (Cons x c)
  show ?case
  proof (cases "c = []")
    case True
    then show ?thesis using Cons.prems by (simp add: blockSizeBytes_def Let_def)
  next
    case False
    then have "blocks_loop ((x # c) @ rest) buf = blocks_loop (c @ rest) (buf @ [x])"
      using Cons.prems by (auto simp: blockSizeBytes_def Let_def)
    also have "\<dots> = (case words ((buf @ [x]) @ c) of
        Inl e \<Rightarrow> ([], Inl e)
      | Inr ws \<Rightarrow> (case blocks_loop rest [] of (ys, r) \<Rightarrow> (ws # ys, r)))"
      using Cons.prems False by (intro Cons.IH) simp_all
    finally show ?thesis by simp
  qed
qed

lemma blocks_loop_parse:
  "blocks_loop s [] = (parse_spec s, Inr (drop (64 * (length s div 64)) s))"
proof (induction s rule: length_induct)
  case (1 s)
  show ?case
  proof (cases "length s < 64")
    case True
    then show ?thesis
      using blocks_loop_fill [of "[]" s] by (simp add: parse_spec_def chunks_short)
  next
    case False
    then have len: "64 \<le> length s" by simp
    have w: "words (take 64 s) = Inr (map be_word (chunks 4 (take 64 s)))"
      using len by (simp add: words_parse min_def)
    have IH: "blocks_loop (drop 64 s) [] =
        (parse_spec (drop 64 s), Inr (drop (64 * (length (drop 64 s) div 64)) (drop 64 s)))"
    proof -
      have "length (drop 64 s) < length s" using len by simp
      then show ?thesis using 1 by blast
    qed
    have d: "64 * (length s div 64) = 64 * (length (drop 64 s) div 64) + 64"
      using len by (simp add: le_div_geq)
    have "blocks_loop (take 64 s @ drop 64 s) [] =
        (case words ([] @ take 64 s) of
           Inl e \<Rightarrow> ([], Inl e)
         | Inr ws \<Rightarrow> (case blocks_loop (drop 64 s) [] of (ys, r) \<Rightarrow> (ws # ys, r)))"
      using len by (intro blocks_loop_block) auto
    then show ?thesis
      using len by (simp add: w IH parse_spec_def chunks_split [of 64 s] d del: length_drop)
  qed
qed

lemma blocks_parse:
  "blocks (s, None) =
     (parse_spec s, if length s mod 64 = 0 then None else Some IncompleteBlock)"
proof -
  define q r where "q = length s div 64" and "r = length s mod 64"
  have "q * 64 + r = length s"
    unfolding q_def r_def by (rule div_mult_mod_eq)
  then have "length s \<le> 64 * q \<longleftrightarrow> r = 0" by linarith
  then have "drop (64 * (length s div 64)) s = [] \<longleftrightarrow> length s mod 64 = 0"
    unfolding q_def r_def by simp
  then show ?thesis
    by (simp add: blocks_def blocks_loop_parse)
qed

section \<open>The padder\<close>

lemma ceil_div_ceiling: "ceil_div a 64 = \<lceil>real_of_int a / 64\<rceil>"
proof -
  have "\<lceil>real_of_int a / 64\<rceil> = - \<lfloor>real_of_int (- a) / real_of_int 64\<rfloor>"
    by (simp add: ceiling_def)
  also have "\<dots> = - ((- a) div 64)"
    by (simp only: floor_divide_of_int_eq)
  finally show ?thesis by (simp add: ceil_div_def)
qed

lemma zero_count_eq: "zero_count L = 64 * ceil_div (L + 9) 64 - 9 - L"
  by (simp add: zero_count_def ceil_div_ceiling)

lemma zero_count_mod: "zero_count L = (- (L + 9)) mod 64"
proof -
  define q r where "q = (- (L + 9)) div 64" and "r = (- (L + 9)) mod 64"
  have "q * 64 + r = - (L + 9)"
    unfolding q_def r_def by (rule div_mult_mod_eq)
  then have "64 * (- q) - 9 - L = r" by linarith
  then show ?thesis
    by (simp add: zero_count_eq ceil_div_def q_def r_def)
qed

lemma zero_count_bounds:
  "0 \<le> zero_count L \<and> zero_count L < 64 \<and> (L + 1 + zero_count L + 8) mod 64 = 0"
proof -
  define q where "q = (- (L + 9)) div 64"
  have "q * 64 + zero_count L = - (L + 9)"
    unfolding q_def zero_count_mod by (rule div_mult_mod_eq)
  then have "L + 1 + zero_count L + 8 = 64 * (- q)" by linarith
  then have "(L + 1 + zero_count L + 8) mod 64 = 0" by simp
  then show ?thesis by (simp add: zero_count_mod)
qed

lemma zero_count_minimal:
  assumes "0 \<le> j" "j < zero_count L"
  shows "(L + 1 + j + 8) mod 64 \<noteq> 0"
proof
  assume "(L + 1 + j + 8) mod 64 = 0"
  then have "64 dvd L + 1 + j + 8" by (simp add: mod_eq_0_iff_dvd)
  moreover have "64 dvd L + 1 + zero_count L + 8"
    using zero_count_bounds [of L] by (simp add: mod_eq_0_iff_dvd)
  ultimately have "64 dvd (L + 1 + zero_count L + 8) - (L + 1 + j + 8)"
    by (rule dvd_diff [rotated])
  then have "64 dvd zero_count L - j" by simp
  moreover have "0 < zero_count L - j" "zero_count L - j < 64"
    using assms zero_count_bounds [of L] by simp_all
  ultimately show False
    using zdvd_not_zless by blast
qed

lemma distribute_digits:
  "0 \<le> n \<Longrightarrow>
   \<exists>ds. distribute n = Inr ds \<and> (\<forall>i. (if i < length ds then ds ! i else 0) = n div 256 ^ i mod 256)"
proof (induction n rule: distribute.induct)
  case (1 n)
  show ?case
  proof (cases "n = 0")
    case True
    then show ?thesis by (simp add: distribute_0)
  next
    case False
    then have pos: "0 < n" using 1 by simp
    then obtain ds where ds: "distribute (n div 256) = Inr ds"
        "\<forall>i. (if i < length ds then ds ! i else 0) = n div 256 div 256 ^ i mod 256"
      using 1 by fastforce
    have "(if i < length (n mod 256 # ds) then (n mod 256 # ds) ! i else 0) = n div 256 ^ i mod 256" for i
    proof (cases i)
      case 0
      then show ?thesis by simp
    next
      case (Suc j)
      have "n div 256 ^ Suc j = n div 256 div 256 ^ j"
        by (simp add: zdiv_zmult2_eq)
      then show ?thesis using ds(2) [rule_format, of j] Suc by (auto split: if_splits)
    qed
    then show ?thesis using pos ds(1) by (simp add: distribute_pos)
  qed
qed

lemma take8:
  assumes "8 \<le> length s"
  shows "take 8 s = [s ! 0, s ! 1, s ! 2, s ! 3, s ! 4, s ! 5, s ! 6, s ! 7]"
proof -
  obtain a b c d e f g h r where "s = a # b # c # d # e # f # g # h # r"
    using assms by (auto simp: numeral_eq_Suc Suc_le_length_iff)
  then show ?thesis by simp
qed

lemma length_bytes:
  assumes "0 \<le> n"
  shows "\<exists>ds. distribute n = Inr ds \<and> rev (take 8 (ds @ replicate 8 0)) = be64 n"
proof -
  obtain ds where ds: "distribute n = Inr ds"
      "\<forall>i. (if i < length ds then ds ! i else 0) = n div 256 ^ i mod 256"
    using distribute_digits [OF assms] by blast
  have nth: "(ds @ replicate 8 0) ! i = n div 256 ^ i mod 256" if "i < 8" for i
    using ds(2) [rule_format, of i] that by (auto simp: nth_append)
  have "take 8 (ds @ replicate 8 0) =
      [n div 256 ^ 0 mod 256, n div 256 ^ 1 mod 256, n div 256 ^ 2 mod 256, n div 256 ^ 3 mod 256,
       n div 256 ^ 4 mod 256, n div 256 ^ 5 mod 256, n div 256 ^ 6 mod 256, n div 256 ^ 7 mod 256]"
  proof -
    have len: "8 \<le> length (ds @ replicate 8 0)" by simp
    have "(ds @ replicate 8 0) ! 0 = n div 256 ^ 0 mod 256"
         "(ds @ replicate 8 0) ! 1 = n div 256 ^ 1 mod 256"
         "(ds @ replicate 8 0) ! 2 = n div 256 ^ 2 mod 256"
         "(ds @ replicate 8 0) ! 3 = n div 256 ^ 3 mod 256"
         "(ds @ replicate 8 0) ! 4 = n div 256 ^ 4 mod 256"
         "(ds @ replicate 8 0) ! 5 = n div 256 ^ 5 mod 256"
         "(ds @ replicate 8 0) ! 6 = n div 256 ^ 6 mod 256"
         "(ds @ replicate 8 0) ! 7 = n div 256 ^ 7 mod 256"
      by (rule nth, simp)+
    then show ?thesis
      by (simp only: take8 [OF len])
  qed
  then have "rev (take 8 (ds @ replicate 8 0)) =
      rev [n div 256 ^ 0 mod 256, n div 256 ^ 1 mod 256, n div 256 ^ 2 mod 256,
           n div 256 ^ 3 mod 256, n div 256 ^ 4 mod 256, n div 256 ^ 5 mod 256,
           n div 256 ^ 6 mod 256, n div 256 ^ 7 mod 256]"
    by (rule arg_cong)
  also have "\<dots> = be64 n"
    by (simp add: be64_def)
  finally show ?thesis using ds(1) by blast
qed

lemma be64_decode:
  assumes "0 \<le> n" "n < 2 ^ 64"
  shows "foldl (\<lambda>s b. s * 256 + b) 0 (be64 n) = n"
proof -
  define q where "q i = n div 256 ^ i" for i :: nat
  define r where "r i = q i mod 256" for i :: nat
  have step: "q i = 256 * q (Suc i) + r i" for i
  proof -
    have "q (Suc i) = q i div 256"
      unfolding q_def power_Suc2 by (rule zdiv_zmult2_eq) simp
    then show ?thesis
      using div_mult_mod_eq [of "q i" 256] by (simp add: r_def)
  qed
  have q0: "q 0 = n" by (simp add: q_def)
  have q8: "q 8 = 0" using assms by (simp add: q_def div_pos_pos_trivial)
  have s: "q 0 = 256 * q 1 + r 0" "q 1 = 256 * q 2 + r 1" "q 2 = 256 * q 3 + r 2"
    "q 3 = 256 * q 4 + r 3" "q 4 = 256 * q 5 + r 4" "q 5 = 256 * q 6 + r 5"
    "q 6 = 256 * q 7 + r 6" "q 7 = 256 * q 8 + r 7"
    using step [of 0] step [of 1] step [of 2] step [of 3] step [of 4] step [of 5] step [of 6]
      step [of 7]
    by (simp_all add: numeral_eq_Suc)
  have "be64 n = [r 7, r 6, r 5, r 4, r 3, r 2, r 1, r 0]"
    by (simp add: be64_def r_def q_def)
  then have "foldl (\<lambda>s b. s * 256 + b) 0 (be64 n) =
      ((((((r 7 * 256 + r 6) * 256 + r 5) * 256 + r 4) * 256 + r 3) * 256 + r 2) * 256 + r 1) * 256 + r 0"
    by simp
  also have "\<dots> = n"
  proof -
    have a7: "q 7 = r 7" using s(8) q8 by simp
    have a6: "q 6 = r 7 * 256 + r 6" using s(7) a7 by simp
    have a5: "q 5 = (r 7 * 256 + r 6) * 256 + r 5" using s(6) a6 by simp
    have a4: "q 4 = ((r 7 * 256 + r 6) * 256 + r 5) * 256 + r 4" using s(5) a5 by simp
    have a3: "q 3 = (((r 7 * 256 + r 6) * 256 + r 5) * 256 + r 4) * 256 + r 3"
      using s(4) a4 by simp
    have a2: "q 2 = ((((r 7 * 256 + r 6) * 256 + r 5) * 256 + r 4) * 256 + r 3) * 256 + r 2"
      using s(3) a3 by simp
    have a1: "q 1 = (((((r 7 * 256 + r 6) * 256 + r 5) * 256 + r 4) * 256 + r 3) * 256 + r 2)
        * 256 + r 1"
      using s(2) a2 by simp
    have "q 0 = ((((((r 7 * 256 + r 6) * 256 + r 5) * 256 + r 4) * 256 + r 3) * 256 + r 2)
        * 256 + r 1) * 256 + r 0"
      using s(1) a1 by simp
    then show ?thesis using q0 by simp
  qed
  finally show ?thesis .
qed

lemma be64_bytes: "b \<in> set (be64 n) \<Longrightarrow> 0 \<le> b \<and> b \<le> 255"
proof -
  have "0 \<le> x mod 256 \<and> x mod 256 \<le> 255" for x :: int
    using pos_mod_sign [of 256 x] pos_mod_bound [of 256 x] by simp
  then show "b \<in> set (be64 n) \<Longrightarrow> 0 \<le> b \<and> b \<le> 255"
    unfolding be64_def by (simp only: set_simps insert_iff empty_iff) blast
qed

lemma addZeros_spec: "addZeros L = (replicate (nat (zero_count L)) 0, None)"
  by (simp add: addZeros_def blockSizeBytes_def zero_count_eq)

lemma addLength_spec: "0 \<le> L \<Longrightarrow> addLength L = (be64 (L * 8), None)"
  using length_bytes [of "L * 8"] by (auto simp: addLength_def)

lemma padMessage_spec: "padMessage (m, None) = (pad_spec m, None)"
  by (simp add: padMessage_def addZeros_spec addLength_spec yield_then_def pad_spec_def Let_def)

lemma padMessage_rec_spec: "padMessage_rec m = Inr (pad_spec m)"
proof -
  have "\<not> zero_count (int (length m)) < 0"
    using zero_count_bounds [of "int (length m)"] by simp
  then have "addZeros_rec (addEof m) (int (length m)) =
      Inr (m @ [128] @ replicate (nat (zero_count (int (length m)))) 0)"
    by (simp add: addZeros_rec_def addEof_def blockSizeBytes_def zero_count_eq Let_def)
  moreover have "addLength_rec p (int (length m)) = Inr (p @ be64 (int (length m) * 8))" for p
    using length_bytes [of "int (length m) * 8"] by (auto simp: addLength_rec_def)
  ultimately show ?thesis
    by (simp add: padMessage_rec_def pad_spec_def)
qed

lemma length_be64 [simp]: "length (be64 n) = 8"
  by (simp add: be64_def)

lemma length_pad_spec:
  "int (length (pad_spec m)) = int (length m) + 1 + zero_count (int (length m)) + 8"
  using zero_count_bounds [of "int (length m)"] by (simp add: pad_spec_def)

lemma length_pad_spec_mod: "length (pad_spec m) mod 64 = 0"
proof -
  have "int (length (pad_spec m) mod 64) = int (length (pad_spec m)) mod 64"
    by (simp add: zmod_int)
  also have "\<dots> = 0"
    using zero_count_bounds [of "int (length m)"] by (simp only: length_pad_spec)
  finally show ?thesis by simp
qed

lemma length_pad_spec_pos: "0 < length (pad_spec m)"
  by (simp add: pad_spec_def)

lemma pad_spec_bytes:
  assumes "\<forall>b\<in>set m. 0 \<le> b \<and> b \<le> 255"
  shows "\<forall>b\<in>set (pad_spec m). 0 \<le> b \<and> b \<le> 255"
  using assms be64_bytes by (auto simp: pad_spec_def)

lemma chunks_elem:
  assumes "c \<in> set (chunks n xs)" "0 < n"
  shows "length c = n \<and> set c \<subseteq> set xs"
proof -
  obtain i where i: "i < length xs div n" "c = take n (drop (i * n) xs)"
    using assms(1) by (auto simp: chunks_def)
  have "Suc i * n \<le> length xs div n * n"
    using i(1) by (intro mult_le_mono1) simp
  also have "\<dots> \<le> length xs" by simp
  finally have "n \<le> length xs - i * n" by simp
  then have "length c = n" using i(2) by simp
  moreover have "set c \<subseteq> set xs"
    unfolding i(2) using set_take_subset set_drop_subset by fast
  ultimately show ?thesis by simp
qed

lemma length_chunks [simp]: "length (chunks n xs) = length xs div n"
  by (simp add: chunks_def)

lemma concat_chunks:
  "0 < n \<Longrightarrow> length xs mod n = 0 \<Longrightarrow> concat (chunks n xs) = xs"
proof (induction xs rule: length_induct)
  case (1 xs)
  show ?case
  proof (cases "xs = []")
    case True
    then show ?thesis by (simp add: chunks_def)
  next
    case False
    have len: "n \<le> length xs"
    proof (rule ccontr)
      assume "\<not> n \<le> length xs"
      then have "length xs mod n = length xs" by simp
      then show False using 1(3) False by simp
    qed
    have a: "length (drop n xs) < length xs"
      using len 1(2) by simp
    have "length xs mod n = (length xs - n) mod n"
      using len by (rule le_mod_geq)
    then have b: "length (drop n xs) mod n = 0"
      using 1(3) by simp
    have "concat (chunks n (drop n xs)) = drop n xs"
      using 1(1) [rule_format, OF a 1(2) b] .
    then show ?thesis
      using len 1(2) by (simp add: chunks_split)
  qed
qed

lemma be_word_uint32:
  assumes "length c = 4" "\<forall>b\<in>set c. 0 \<le> b \<and> b \<le> 255"
  shows "isUint32 (be_word c)"
proof -
  obtain b0 b1 b2 b3 where c: "c = [b0, b1, b2, b3]"
    using assms(1) by (auto simp: numeral_eq_Suc length_Suc_conv)
  have b: "0 \<le> b0" "b0 \<le> 255" "0 \<le> b1" "b1 \<le> 255" "0 \<le> b2" "b2 \<le> 255"
    "0 \<le> b3" "b3 \<le> 255"
    using assms(2) by (simp_all add: c)
  have "be_word c = b0 * 16777216 + b1 * 65536 + b2 * 256 + b3"
    by (simp add: be_word_def c)
  then show ?thesis
    using b by (simp add: isUint32_def)
qed

lemma parse_spec_blocks:
  assumes "blk \<in> set (parse_spec s)"
  shows "length blk = 16"
  using assms chunks_elem [of _ 64 s] by (auto simp: parse_spec_def)

lemma parse_spec_uint32:
  assumes "\<forall>b\<in>set s. 0 \<le> b \<and> b \<le> 255" "blk \<in> set (parse_spec s)" "w \<in> set blk"
  shows "isUint32 w"
proof -
  obtain c where c: "c \<in> set (chunks 64 s)" "blk = map be_word (chunks 4 c)"
    using assms(2) by (auto simp: parse_spec_def)
  then obtain g where g: "g \<in> set (chunks 4 c)" "w = be_word g"
    using assms(3) by auto
  have "set c \<subseteq> set s" using chunks_elem [OF c(1)] by simp
  moreover have "length g = 4" "set g \<subseteq> set c" using chunks_elem [OF g(1)] by simp_all
  ultimately have "\<forall>b\<in>set g. 0 \<le> b \<and> b \<le> 255"
    using assms(1) by blast
  then show ?thesis
    unfolding g(2) using \<open>length g = 4\<close> by (intro be_word_uint32)
qed

section \<open>The driver\<close>

lemma list5:
  assumes "length ws = 5"
  obtains s0 s1 s2 s3 s4 where "ws = [s0, s1, s2, s3, s4]"
  using assms by (auto simp: numeral_eq_Suc length_Suc_conv)

lemma length_compress_spec: "length S = 5 \<Longrightarrow> length (compress_spec S b) = 5"
  by (simp add: compress_spec_def split: prod.splits)

lemma digest_word5:
  assumes "length ws = 5" "length block = 16"
  shows "digest block (map uint ws) = Inr (map uint (compress_spec ws (map w32 block)))"
proof -
  obtain s0 s1 s2 s3 s4 where "ws = [s0, s1, s2, s3, s4]"
    using assms(1) by (rule list5)
  then show ?thesis
    using digest_word [OF assms(2), of s0 s1 s2 s3 s4] by simp
qed

lemma foldM_digest:
  assumes "\<forall>b\<in>set bl. length b = 16" "length ws = 5"
  shows "foldM digest bl (map uint ws) =
         Inr (map uint (foldl compress_spec ws (map (map w32) bl)))"
  using assms
proof (induction bl arbitrary: ws)
  case Nil
  then show ?case by simp
next
  case (Cons b bl)
  have "digest b (map uint ws) = Inr (map uint (compress_spec ws (map w32 b)))"
    using Cons.prems by (intro digest_word5) simp_all
  moreover have "foldM digest bl (map uint (compress_spec ws (map w32 b))) =
      Inr (map uint (foldl compress_spec (compress_spec ws (map w32 b)) (map (map w32) bl)))"
    using Cons.prems by (intro Cons.IH) (simp_all add: length_compress_spec)
  ultimately show ?case by simp
qed

lemma forEach_checkUint32:
  "foldM (\<lambda>w _. checkUint32 w) block () =
     (if \<forall>w\<in>set block. isUint32 w then Inr () else Inl NotUint32)"
  by (induction block) (simp_all add: checkUint32_def)

lemma digest_rec_spec:
  assumes "\<forall>b\<in>set bl. length b = 16" "length ws = 5"
  shows "digest_rec bl (map uint ws) =
         (if \<forall>b\<in>set bl. \<forall>w\<in>set b. isUint32 w
          then Inr (map uint (foldl compress_spec ws (map (map w32) bl)))
          else Inl NotUint32)"
  using assms
proof (induction bl arbitrary: ws)
  case Nil
  then show ?case by simp
next
  case (Cons b bl)
  have d: "digest b (map uint ws) = Inr (map uint (compress_spec ws (map w32 b)))"
    using Cons.prems by (intro digest_word5) simp_all
  have IH: "digest_rec bl (map uint (compress_spec ws (map w32 b))) =
      (if \<forall>b\<in>set bl. \<forall>w\<in>set b. isUint32 w
       then Inr (map uint (foldl compress_spec (compress_spec ws (map w32 b)) (map (map w32) bl)))
       else Inl NotUint32)"
    using Cons.prems by (intro Cons.IH) (simp_all add: length_compress_spec)
  show ?case
    using Cons.prems(1) by (simp add: digest_rec_Cons forEach_checkUint32 d IH)
qed

lemma init_IV:
  "[0x67452301, 0xefcdab89, 0x98badcfe, 0x10325476, 0xc3d2e1f0] = map uint IV"
  by (simp add: IV_def)

lemma sha1_string:
  "sha1 (JSString s) = Inr (map toString16 (map uint (sha1_spec (map uint s))))"
proof -
  have "foldM digest (parse_spec (pad_spec (map uint s))) (map uint IV) =
      Inr (map uint (sha1_spec (map uint s)))"
    unfolding sha1_spec_def using parse_spec_blocks
    by (intro foldM_digest) (auto simp: IV_def)
  then show ?thesis
    by (simp add: sha1_def bytes_def padMessage_spec blocks_parse length_pad_spec_mod
          init_IV del: map_map)
qed

lemma sha1_rec_string:
  "sha1_rec (JSString s) =
     (if \<forall>b\<in>set (parse_spec (pad_spec (map uint s))). \<forall>w\<in>set b. isUint32 w
      then Inr (map toString16 (map uint (sha1_spec (map uint s))))
      else Inl NotUint32)"
proof -
  have "digest_rec (parse_spec (pad_spec (map uint s))) (map uint IV) =
      (if \<forall>b\<in>set (parse_spec (pad_spec (map uint s))). \<forall>w\<in>set b. isUint32 w
       then Inr (map uint (sha1_spec (map uint s)))
       else Inl NotUint32)"
    unfolding sha1_spec_def using parse_spec_blocks
    by (intro digest_rec_spec) (auto simp: IV_def)
  moreover have "js_rem (int (length (pad_spec (map uint s)))) blockSizeBytes = 0"
  proof -
    have "int (length (pad_spec (map uint s))) mod 64 = 0"
      using zero_count_bounds [of "int (length (map uint s))"] by (simp only: length_pad_spec)
    then show ?thesis
      by (simp add: js_rem_nonneg blockSizeBytes_def)
  qed
  ultimately show ?thesis
    by (simp add: sha1_rec_def bytes_rec_def padMessage_rec_spec blocks_rec_parse
          length_pad_spec_mod init_IV del: map_map)
qed

lemma sha1_not_string:
  "(\<forall>s. v \<noteq> JSString s) \<Longrightarrow>
   sha1 v = Inl UnsupportedInputType \<and> sha1_rec v = Inl UnsupportedInputType \<and>
   blocks (padMessage (bytes v)) = ([], Some UnsupportedInputType)"
  by (cases v) (simp_all add: sha1_def sha1_rec_def bytes_def bytes_rec_def padMessage_def blocks_def)

lemma byte_string_words:
  assumes "\<forall>c\<in>set (s :: 16 word list). c \<le> 255"
  shows "\<forall>b\<in>set (parse_spec (pad_spec (map uint s))). \<forall>w\<in>set b. isUint32 w"
proof -
  have "\<forall>b\<in>set (map uint s). 0 \<le> b \<and> b \<le> 255"
    using assms by (auto simp: word_le_def)
  then have "\<forall>b\<in>set (pad_spec (map uint s)). 0 \<le> b \<and> b \<le> 255"
    by (rule pad_spec_bytes)
  then show ?thesis
    using parse_spec_uint32 by blast
qed

section \<open>The exceptions a digest computation can end with\<close>

lemma ROTL_error: "ROTL n v = Inl e \<Longrightarrow> e = NotUint32 \<or> e = InvalidShiftAmount"
  by (auto simp: ROTL_def split: if_splits)

lemma checkUint32_error: "checkUint32 v = Inl e \<Longrightarrow> e = NotUint32"
  by (auto simp: checkUint32_def split: if_splits)

lemma f_error: "0 \<le> t \<Longrightarrow> t \<le> 79 \<Longrightarrow> f t B C D = Inl e \<Longrightarrow> e = NotUint32"
  by (auto simp: f_def bnd_def checkUint32_def split: if_splits)

lemma f_index_error:
  "f t B C D = Inl InvalidFNumber \<longleftrightarrow>
   isUint32 B \<and> isUint32 C \<and> isUint32 D \<and> (t < 0 \<or> t > 79)"
  by (auto simp: f_def bnd_def checkUint32_def split: if_splits)

lemma K_index_error: "K t = Inl e \<longleftrightarrow> e = InvalidKNumber \<and> (t < 0 \<or> t > 79)"
  by (auto simp: K_def split: if_splits)

lemma rounds_loop_error:
  "0 \<le> t \<Longrightarrow> rounds_loop W t s = Inl e \<Longrightarrow> e = NotUint32 \<or> e = InvalidShiftAmount"
proof (induction "nat (80 - t)" arbitrary: t s)
  case 0
  then show ?case by (simp add: rounds_loop_done)
next
  case (Suc k)
  then have t: "t < 80" "0 \<le> t" "t \<le> 79" by simp_all
  obtain a b c d x where s: "s = (a, b, c, d, x)" by (cases s) auto
  have IH: "rounds_loop W (t + 1) s' = Inl e \<Longrightarrow> e = NotUint32 \<or> e = InvalidShiftAmount" for s'
    using Suc.hyps(2) t by (intro Suc.hyps(1) [of "t + 1" s']) auto
  have K: "\<exists>kv. K t = Inr kv"
    using t K_index_error [of t] by (cases "K t") auto
  show ?case
    using Suc.prems(2) t K
    by (subst (asm) rounds_loop.simps)
       (auto simp: s bnd_def Let_def split: sum.splits
          dest: ROTL_error f_error [OF t(2,3)] checkUint32_error IH)
qed

lemma schedule_loop_error:
  "schedule_loop t W = Inl e \<Longrightarrow> e = NotUint32 \<or> e = InvalidShiftAmount"
proof (induction "nat (80 - t)" arbitrary: t W)
  case 0
  then show ?case by (simp add: schedule_loop_done)
next
  case (Suc k)
  then have t: "t < 80" by simp
  have IH: "schedule_loop (t + 1) W' = Inl e \<Longrightarrow> e = NotUint32 \<or> e = InvalidShiftAmount" for W'
    using Suc.hyps(2) t by (intro Suc.hyps(1) [of "t + 1" W']) auto
  show ?case
    using Suc.prems t
    by (subst (asm) schedule_loop.simps)
       (auto simp: bnd_def split: sum.splits dest: ROTL_error checkUint32_error IH)
qed

lemma digest_error:
  "digest block sm = Inl e \<Longrightarrow> e = NotUint32 \<or> e = InvalidShiftAmount \<or> e = IncorrectBlockSize"
  by (auto simp: digest_def bnd_def split: if_splits sum.splits list.splits prod.splits
      dest: schedule_loop_error rounds_loop_error [rotated])

lemma digest_rec_error:
  "digest_rec bl sm = Inl e \<Longrightarrow> e = NotUint32 \<or> e = InvalidShiftAmount \<or> e = IncorrectBlockSize"
proof (induction bl arbitrary: sm)
  case Nil
  then show ?case by simp
next
  case (Cons b bl)
  then show ?case
    by (auto simp: digest_rec_Cons forEach_checkUint32 bnd_def split: if_splits sum.splits
        dest: digest_error)
qed

section \<open>Bytes and block words are not negative\<close>

lemma map_uint_nonneg: "\<forall>b\<in>set (map uint (s :: 16 word list)). 0 \<le> b"
  by simp

lemma be64_nonneg: "b \<in> set (be64 n) \<Longrightarrow> 0 \<le> b"
  using be64_bytes [of b n] by simp

lemma pad_spec_nonneg:
  assumes "\<forall>b\<in>set m. 0 \<le> b"
  shows "\<forall>b\<in>set (pad_spec m). 0 \<le> b"
  using assms be64_nonneg by (auto simp: pad_spec_def)

lemma be_word_nonneg:
  assumes "length c = 4" "\<forall>b\<in>set c. 0 \<le> b"
  shows "0 \<le> be_word c"
proof -
  obtain b0 b1 b2 b3 where c: "c = [b0, b1, b2, b3]"
    using assms(1) by (auto simp: numeral_eq_Suc length_Suc_conv)
  have "0 \<le> b0" "0 \<le> b1" "0 \<le> b2" "0 \<le> b3"
    using assms(2) by (simp_all add: c)
  then show ?thesis
    by (simp add: be_word_def c)
qed

lemma parse_spec_nonneg:
  assumes "\<forall>b\<in>set s. 0 \<le> b" "blk \<in> set (parse_spec s)" "w \<in> set blk"
  shows "0 \<le> w"
proof -
  obtain c where c: "c \<in> set (chunks 64 s)" "blk = map be_word (chunks 4 c)"
    using assms(2) by (auto simp: parse_spec_def)
  then obtain g where g: "g \<in> set (chunks 4 c)" "w = be_word g"
    using assms(3) by auto
  have "set c \<subseteq> set s" using chunks_elem [OF c(1)] by simp
  moreover have "length g = 4" "set g \<subseteq> set c" using chunks_elem [OF g(1)] by simp_all
  ultimately have "\<forall>b\<in>set g. 0 \<le> b"
    using assms(1) by blast
  then show ?thesis
    unfolding g(2) using \<open>length g = 4\<close> by (intro be_word_nonneg)
qed

section \<open>The rendered words\<close>

lemma hexdigit_props:
  "\<forall>n<16. hexdigit n \<in> set ''0123456789abcdef'' \<and> hex_value (hexdigit n) = int n \<and>
           (n \<noteq> 0 \<longrightarrow> hexdigit n \<noteq> CHR ''0'')"
  by (simp add: All_less_Suc numeral_eq_Suc hexdigit_def hex_value_def)

lemma hexdigit_nat:
  assumes "0 \<le> n" "n < 16"
  shows "hexdigit (nat n) \<in> set ''0123456789abcdef''" "hex_value (hexdigit (nat n)) = n"
    "n \<noteq> 0 \<Longrightarrow> hexdigit (nat n) \<noteq> CHR ''0''"
proof -
  have "nat n < 16" using assms by simp
  then have p: "hexdigit (nat n) \<in> set ''0123456789abcdef'' \<and>
      hex_value (hexdigit (nat n)) = int (nat n) \<and>
      (nat n \<noteq> 0 \<longrightarrow> hexdigit (nat n) \<noteq> CHR ''0'')"
    using hexdigit_props by blast
  show "hexdigit (nat n) \<in> set ''0123456789abcdef''" using p by (rule conjunct1)
  show "hex_value (hexdigit (nat n)) = n" using p assms by simp
  show "n \<noteq> 0 \<Longrightarrow> hexdigit (nat n) \<noteq> CHR ''0''" using p assms by simp
qed

lemma hex_digits_chars: "0 \<le> n \<Longrightarrow> set (hex_digits n) \<subseteq> set ''0123456789abcdef''"
proof (induction n rule: hex_digits.induct)
  case (1 n)
  show ?case
  proof (cases "n < 16")
    case True
    then show ?thesis
      using hexdigit_nat(1) [of n] 1(2) by (subst hex_digits.simps) simp
  next
    case False
    have "0 \<le> n mod 16" "n mod 16 < 16" by simp_all
    then have "hexdigit (nat (n mod 16)) \<in> set ''0123456789abcdef''"
      by (rule hexdigit_nat(1))
    moreover have "set (hex_digits (n div 16)) \<subseteq> set ''0123456789abcdef''"
      using 1 False by simp
    ultimately show ?thesis
      using False by (subst hex_digits.simps) simp
  qed
qed

lemma hex_digits_value:
  "0 \<le> n \<Longrightarrow> foldl (\<lambda>a c. a * 16 + hex_value c) 0 (hex_digits n) = n"
proof (induction n rule: hex_digits.induct)
  case (1 n)
  show ?case
  proof (cases "n < 16")
    case True
    then show ?thesis
      using hexdigit_nat(2) [of n] 1(2) by (subst hex_digits.simps) simp
  next
    case False
    have "0 \<le> n mod 16" "n mod 16 < 16" by simp_all
    then have d: "hex_value (hexdigit (nat (n mod 16))) = n mod 16"
      by (rule hexdigit_nat(2))
    have IH: "foldl (\<lambda>a c. a * 16 + hex_value c) 0 (hex_digits (n div 16)) = n div 16"
      using 1 False by simp
    have "foldl (\<lambda>a c. a * 16 + hex_value c) 0 (hex_digits n) = n div 16 * 16 + n mod 16"
      using False by (subst hex_digits.simps) (simp add: IH d)
    then show ?thesis by simp
  qed
qed

lemma hex_digits_no_leading_zero:
  "0 \<le> n \<Longrightarrow> hex_digits n \<noteq> [] \<and> (n \<noteq> 0 \<longrightarrow> hd (hex_digits n) \<noteq> CHR ''0'')"
proof (induction n rule: hex_digits.induct)
  case (1 n)
  show ?case
  proof (cases "n < 16")
    case True
    then show ?thesis
      using hexdigit_nat(3) [of n] 1(2) by (subst hex_digits.simps, subst hex_digits.simps) simp
  next
    case False
    then have "n div 16 \<noteq> 0" by simp
    moreover have "hex_digits (n div 16) \<noteq> [] \<and>
        (n div 16 \<noteq> 0 \<longrightarrow> hd (hex_digits (n div 16)) \<noteq> CHR ''0'')"
      using 1 False by simp
    ultimately have "hex_digits (n div 16) \<noteq> []" "hd (hex_digits (n div 16)) \<noteq> CHR ''0''"
      by simp_all
    then show ?thesis
      using False by (subst hex_digits.simps, subst hex_digits.simps) simp
  qed
qed

lemma length_hex_digits_lower: "16 ^ k \<le> n \<Longrightarrow> k < length (hex_digits n)"
proof (induction k arbitrary: n)
  case 0
  then show ?case
    using hex_digits_no_leading_zero [of n] by simp
next
  case (Suc k)
  have "(16::int) \<le> 16 ^ Suc k" by (simp add: self_le_power)
  then have n: "\<not> n < 16" using Suc.prems by linarith
  have "16 ^ k \<le> n div 16"
    using Suc.prems by (simp add: zdiv_mono1 [of "16 * 16 ^ k" n 16, simplified])
  then have "k < length (hex_digits (n div 16))" by (rule Suc.IH)
  then show ?case
    using n by (subst hex_digits.simps) simp
qed

lemma toString16_full:
  assumes "isUint32 w" "2 ^ 28 \<le> w"
  shows "length (toString16 w) = 8"
proof -
  have "(16::int) ^ 7 \<le> w" using assms by simp
  then have "7 < length (hex_digits w)" by (rule length_hex_digits_lower)
  moreover have "w < 16 ^ 8" using assms by (simp add: isUint32_def)
  then have "length (hex_digits w) \<le> 8" by (intro length_hex_digits) simp_all
  ultimately show ?thesis using assms by (simp add: toString16_def isUint32_def)
qed

lemma ROTL_zero: "isUint32 w \<Longrightarrow> ROTL 0 w = Inr w"
proof -
  assume "isUint32 w"
  then obtain x :: "32 word" where w: "w = uint x"
    by (metis isUint32_iff)
  show ?thesis
    using ROTL_word [of 0 x] by (simp add: w word_rotl_32)
qed

lemma ROTL_32: "isUint32 w \<Longrightarrow> ROTL 32 w = Inl InvalidShiftAmount"
  by (simp add: ROTL_def)

lemma length_sha1_spec: "length (sha1_spec m) = 5"
proof -
  have "length S = 5 \<Longrightarrow> length (foldl compress_spec S bl) = 5" for S bl
    by (induction bl arbitrary: S) (simp_all add: length_compress_spec)
  then show ?thesis
    by (simp add: sha1_spec_def IV_def)
qed

lemma sha1_rec_byte_string:
  assumes "\<forall>c\<in>set (s :: 16 word list). c \<le> 0xFF"
  shows "sha1_rec (JSString s) = Inr (map toString16 (map uint (sha1_spec (map uint s))))"
proof -
  have "\<forall>b\<in>set (parse_spec (pad_spec (map uint s))). \<forall>w\<in>set b. isUint32 w"
    using assms by (rule byte_string_words)
  then show ?thesis
    by (simp add: sha1_rec_string)
qed

section \<open>Concrete runs shared by the claims below\<close>

lemma sha1_unit_0x100:
  "sha1 (JSString [0x100]) =
     Inr [''5ba93c9d'', ''b0cff93f'', ''52b521d7'', ''420e43f6'', ''eda2784f'']"
  by (simp add: eval_simps pipeline_simps)

lemma sha1_rec_unit_0x100: "sha1_rec (JSString [0x100]) = Inl NotUint32"
  by (simp add: eval_simps pipeline_rec_simps forEach_checkUint32)

lemma sha1_unit_0x69:
  "sha1 (JSString [0x69]) =
     Inr [''42dc451'', ''2fa3d391'', ''c5170cf3'', ''aa61e6a6'', ''38f84342'']"
  by (simp add: eval_simps pipeline_simps)

section \<open>The claims\<close>

text \<open>
  C1. For the input \<open>""\<close> the program returns the five words rendered in lowercase
  hexadecimal which, joined by spaces, read
  \<open>da39a3ee 5e6b4b0d 3255bfef 95601890 afd80709\<close>, and for \<open>"abc"\<close>
  \<open>a9993e36 4706816a ba3e2571 7850c26c 9cd0d89d\<close>; in sha1.js and in part_000 alike.
\<close>

theorem C1_test_vectors:
  "sha1 (JSString []) =
     Inr [''da39a3ee'', ''5e6b4b0d'', ''3255bfef'', ''95601890'', ''afd80709''] \<and>
   map_sum id (join '' '') (sha1 (JSString [])) =
     Inr ''da39a3ee 5e6b4b0d 3255bfef 95601890 afd80709'' \<and>
   sha1 (JSString [0x61, 0x62, 0x63]) =
     Inr [''a9993e36'', ''4706816a'', ''ba3e2571'', ''7850c26c'', ''9cd0d89d''] \<and>
   map_sum id (join '' '') (sha1 (JSString [0x61, 0x62, 0x63])) =
     Inr ''a9993e36 4706816a ba3e2571 7850c26c 9cd0d89d'' \<and>
   sha1_rec (JSString []) =
     Inr [''da39a3ee'', ''5e6b4b0d'', ''3255bfef'', ''95601890'', ''afd80709''] \<and>
   map_sum id (join '' '') (sha1_rec (JSString [])) =
     Inr ''da39a3ee 5e6b4b0d 3255bfef 95601890 afd80709'' \<and>
   sha1_rec (JSString [0x61, 0x62, 0x63]) =
     Inr [''a9993e36'', ''4706816a'', ''ba3e2571'', ''7850c26c'', ''9cd0d89d''] \<and>
   map_sum id (join '' '') (sha1_rec (JSString [0x61, 0x62, 0x63])) =
     Inr ''a9993e36 4706816a ba3e2571 7850c26c 9cd0d89d''"
proof -
  have e: "sha1 (JSString []) =
      Inr [''da39a3ee'', ''5e6b4b0d'', ''3255bfef'', ''95601890'', ''afd80709'']"
    by (simp add: eval_simps pipeline_simps)
  have a: "sha1 (JSString [0x61, 0x62, 0x63]) =
      Inr [''a9993e36'', ''4706816a'', ''ba3e2571'', ''7850c26c'', ''9cd0d89d'']"
    by (simp add: eval_simps pipeline_simps)
  have er: "sha1_rec (JSString []) =
      Inr [''da39a3ee'', ''5e6b4b0d'', ''3255bfef'', ''95601890'', ''afd80709'']"
    by (simp add: eval_simps pipeline_rec_simps)
  have ar: "sha1_rec (JSString [0x61, 0x62, 0x63]) =
      Inr [''a9993e36'', ''4706816a'', ''ba3e2571'', ''7850c26c'', ''9cd0d89d'']"
    by (simp add: eval_simps pipeline_rec_simps)
  show ?thesis
    unfolding e a er ar by simp
qed



text \<open>
  C3. For every byte sequence \<open>m\<close> of \<open>L\<close> bytes with \<open>L * 8\<close> below \<open>2 ^ 64\<close>, both
  padders produce \<open>m\<close>, the byte \<open>0x80\<close>, \<open>k\<close> zero bytes and the eight bytes of
  \<open>L * 8\<close>, most significant first, where \<open>k = 64 * ceil((L + 9) / 64) - 9 - L\<close> is the
  least \<open>k \<ge> 0\<close> that makes \<open>L + 1 + k + 8\<close> a multiple of 64. The length of the result
  is a positive multiple of 64. (An array or a string of the language has fewer than
  \<open>2 ^ 53\<close> elements, so \<open>L * 8\<close> is below \<open>2 ^ 64\<close> for every message the program can
  be given.)
\<close>

theorem C3_padding:
  assumes "int (length m) * 8 < 2 ^ 64"
  shows "(let L = int (length m);
              k = 64 * \<lceil>real_of_int (L + 9) / 64\<rceil> - 9 - L;
              padded = m @ [128] @ replicate (nat k) 0 @ be64 (L * 8)
          in padMessage (m, None) = (padded, None) \<and>
             padMessage_rec m = Inr padded \<and>
             0 \<le> k \<and> (L + 1 + k + 8) mod 64 = 0 \<and>
             (\<forall>j. 0 \<le> j \<and> j < k \<longrightarrow> (L + 1 + j + 8) mod 64 \<noteq> 0) \<and>
             length (be64 (L * 8)) = 8 \<and>
             (\<forall>b\<in>set (be64 (L * 8)). 0 \<le> b \<and> b \<le> 255) \<and>
             foldl (\<lambda>s b. s * 256 + b) 0 (be64 (L * 8)) = L * 8 \<and>
             length padded mod 64 = 0 \<and> 0 < length padded)"
proof -
  define L where "L = int (length m)"
  define k where "k = 64 * \<lceil>real_of_int (L + 9) / 64\<rceil> - 9 - L"
  define padded where "padded = m @ [128] @ replicate (nat k) 0 @ be64 (L * 8)"
  have kz: "k = zero_count L"
    by (simp add: k_def zero_count_def)
  have p: "padded = pad_spec m"
    by (simp add: padded_def pad_spec_def L_def kz)
  have c1: "padMessage (m, None) = (padded, None)"
    by (simp only: p padMessage_spec)
  have c2: "padMessage_rec m = Inr padded"
    by (simp only: p padMessage_rec_spec)
  have c3: "0 \<le> k"
    using zero_count_bounds [of L] by (simp only: kz)
  have c4: "(L + 1 + k + 8) mod 64 = 0"
    using zero_count_bounds [of L] by (simp only: kz)
  have c5: "\<forall>j. 0 \<le> j \<and> j < k \<longrightarrow> (L + 1 + j + 8) mod 64 \<noteq> 0"
  proof (intro allI impI)
    fix j
    assume "0 \<le> j \<and> j < k"
    then have "0 \<le> j" "j < zero_count L"
      by (simp_all only: kz)
    then show "(L + 1 + j + 8) mod 64 \<noteq> 0"
      by (rule zero_count_minimal)
  qed
  have c6: "length (be64 (L * 8)) = 8"
    by (rule length_be64)
  have c7: "\<forall>b\<in>set (be64 (L * 8)). 0 \<le> b \<and> b \<le> 255"
    by (intro ballI) (rule be64_bytes)
  have c8: "foldl (\<lambda>s b. s * 256 + b) 0 (be64 (L * 8)) = L * 8"
    using assms by (intro be64_decode) (simp_all add: L_def)
  have c9: "length padded mod 64 = 0"
    by (simp only: p length_pad_spec_mod)
  have c10: "0 < length padded"
    by (simp only: p length_pad_spec_pos)
  show ?thesis
    using c1 c2 c3 c4 c5 c6 c7 c8 c9 c10
    unfolding Let_def L_def k_def padded_def
    by (intro conjI)
qed

theorem C3_padding_witness:
  "int (length [0x61, 0x62, 0x63 :: int]) * 8 < 2 ^ 64 \<and>
   padMessage ([0x61, 0x62, 0x63], None) =
     ([0x61, 0x62, 0x63, 128] @ replicate 52 0 @ [0, 0, 0, 0, 0, 0, 0, 24], None) \<and>
   padMessage_rec [0x61, 0x62, 0x63] =
     Inr ([0x61, 0x62, 0x63, 128] @ replicate 52 0 @ [0, 0, 0, 0, 0, 0, 0, 24])"
proof -
  have h: "int (length [0x61, 0x62, 0x63 :: int]) * 8 < 2 ^ 64" by simp
  have "zero_count 3 = 52" by (simp add: zero_count_mod)
  then have k: "64 * \<lceil>real_of_int (int (length [0x61, 0x62, 0x63 :: int]) + 9) / 64\<rceil>
        - 9 - int (length [0x61, 0x62, 0x63 :: int]) = 52"
    by (simp add: zero_count_def)
  note t = C3_padding [OF h, unfolded Let_def k]
  have "padMessage ([0x61, 0x62, 0x63], None) =
      ([0x61, 0x62, 0x63, 128] @ replicate 52 0 @ [0, 0, 0, 0, 0, 0, 0, 24], None)"
    using t [THEN conjunct1] by (simp add: be64_def)
  moreover have "padMessage_rec [0x61, 0x62, 0x63] =
      Inr ([0x61, 0x62, 0x63, 128] @ replicate 52 0 @ [0, 0, 0, 0, 0, 0, 0, 24])"
    using t [THEN conjunct2, THEN conjunct1] by (simp add: be64_def)
  ultimately show ?thesis
    using h by simp
qed

text \<open>
  C4. A byte sequence whose length is a multiple of 64 is parted into its consecutive
  64-byte chunks, in order and with none left over, and each chunk into 16 words of four
  bytes, most significant byte first. Otherwise the parser of part_000 throws "incomplete
  block", and the generator of sha1.js ends with that exception after the blocks of the
  complete chunks, so that a caller collecting its values gets the exception and no
  blocks. \<open>words\<close> throws
  "incomplete word" for a group that is not a multiple of four bytes long.
\<close>

theorem C4_block_parser:
  "(length s mod 64 = 0 \<longrightarrow>
      blocks (s, None) = (map (\<lambda>c. map be_word (chunks 4 c)) (chunks 64 s), None) \<and>
      drain (blocks (s, None)) = Inr (map (\<lambda>c. map be_word (chunks 4 c)) (chunks 64 s)) \<and>
      blocks_rec s = Inr (map (\<lambda>c. map be_word (chunks 4 c)) (chunks 64 s)) \<and>
      concat (chunks 64 s) = s \<and>
      (\<forall>c\<in>set (chunks 64 s).
         length c = 64 \<and> length (chunks 4 c) = 16 \<and> concat (chunks 4 c) = c \<and>
         (\<forall>g\<in>set (chunks 4 c). length g = 4))) \<and>
   (length s mod 64 \<noteq> 0 \<longrightarrow>
      blocks (s, None) =
        (map (\<lambda>c. map be_word (chunks 4 c)) (chunks 64 s), Some IncompleteBlock) \<and>
      drain (blocks (s, None)) = Inl IncompleteBlock \<and>
      blocks_rec s = Inl IncompleteBlock) \<and>
   (length w mod 4 = 0 \<longrightarrow> words w = Inr (map be_word (chunks 4 w))) \<and>
   (length w mod 4 \<noteq> 0 \<longrightarrow> words w = Inl IncompleteWord)"
proof -
  have c: "length c = 64 \<and> length (chunks 4 c) = 16 \<and> concat (chunks 4 c) = c \<and>
      (\<forall>g\<in>set (chunks 4 c). length g = 4)" if "c \<in> set (chunks 64 s)" for c
  proof -
    have "length c = 64" using chunks_elem [OF that] by simp
    moreover from this have "concat (chunks 4 c) = c" by (intro concat_chunks) simp_all
    moreover have "\<forall>g\<in>set (chunks 4 c). length g = 4"
      using chunks_elem [of _ 4 c] by simp
    ultimately show ?thesis by simp
  qed
  have "length s mod 64 = 0 \<longrightarrow> concat (chunks 64 s) = s"
    by (simp add: concat_chunks)
  then show ?thesis
    using c by (simp add: blocks_parse blocks_rec_parse words_parse parse_spec_def drain_def)
qed

theorem C4_block_parser_witness:
  "length [3, 10, 17, 24, 31, 38, 45, 52, 59, 66, 73, 80, 87, 94, 101, 108, 115, 122, 129,
      136, 143, 150, 157, 164, 171, 178, 185, 192, 199, 206, 213, 220, 227, 234, 241,
      248, 255, 6, 13, 20, 27, 34, 41, 48, 55, 62, 69, 76, 83, 90, 97, 104, 111, 118,
      125, 132, 139, 146, 153, 160, 167, 174, 181, 188] mod 64 = 0 \<and>
   blocks ([3, 10, 17, 24, 31, 38, 45, 52, 59, 66, 73, 80, 87, 94, 101, 108, 115, 122, 129,
      136, 143, 150, 157, 164, 171, 178, 185, 192, 199, 206, 213, 220, 227, 234, 241,
      248, 255, 6, 13, 20, 27, 34, 41, 48, 55, 62, 69, 76, 83, 90, 97, 104, 111, 118,
      125, 132, 139, 146, 153, 160, 167, 174, 181, 188], None) = ([[50991384, 522595636, 994199888, 1465804140, 1937408392, 2409012644, 2880616896,
      3352221148, 3823825400, 4278586644, 455223600, 926827852, 1398432104, 1870036356,
      2341640608, 2813244860]], None) \<and>
   blocks_rec [3, 10, 17, 24, 31, 38, 45, 52, 59, 66, 73, 80, 87, 94, 101, 108, 115, 122, 129,
      136, 143, 150, 157, 164, 171, 178, 185, 192, 199, 206, 213, 220, 227, 234, 241,
      248, 255, 6, 13, 20, 27, 34, 41, 48, 55, 62, 69, 76, 83, 90, 97, 104, 111, 118,
      125, 132, 139, 146, 153, 160, 167, 174, 181, 188] = Inr [[50991384, 522595636, 994199888, 1465804140, 1937408392, 2409012644, 2880616896,
      3352221148, 3823825400, 4278586644, 455223600, 926827852, 1398432104, 1870036356,
      2341640608, 2813244860]] \<and>
   length [1, 2, 3, 4 :: int] mod 4 = 0 \<and> words [1, 2, 3, 4] = Inr [0x01020304] \<and>
   length [1, 2, 3 :: int] mod 64 \<noteq> 0 \<and> length [1, 2, 3 :: int] mod 4 \<noteq> 0 \<and>
   blocks ([1, 2, 3], None) = ([], Some IncompleteBlock) \<and>
   drain (blocks ([1, 2, 3], None)) = Inl IncompleteBlock \<and>
   blocks_rec [1, 2, 3] = Inl IncompleteBlock \<and>
   words [1, 2, 3] = Inl IncompleteWord"
proof -
  have e: "blocks ([3, 10, 17, 24, 31, 38, 45, 52, 59, 66, 73, 80, 87, 94, 101, 108, 115, 122, 129,
      136, 143, 150, 157, 164, 171, 178, 185, 192, 199, 206, 213, 220, 227, 234, 241,
      248, 255, 6, 13, 20, 27, 34, 41, 48, 55, 62, 69, 76, 83, 90, 97, 104, 111, 118,
      125, 132, 139, 146, 153, 160, 167, 174, 181, 188], None) = ([[50991384, 522595636, 994199888, 1465804140, 1937408392, 2409012644, 2880616896,
      3352221148, 3823825400, 4278586644, 455223600, 926827852, 1398432104, 1870036356,
      2341640608, 2813244860]], None)"
    by (simp add: blocks_def Let_def eval_simps)
  have "blocks_rec [3, 10, 17, 24, 31, 38, 45, 52, 59, 66, 73, 80, 87, 94, 101, 108, 115, 122, 129,
      136, 143, 150, 157, 164, 171, 178, 185, 192, 199, 206, 213, 220, 227, 234, 241,
      248, 255, 6, 13, 20, 27, 34, 41, 48, 55, 62, 69, 76, 83, 90, 97, 104, 111, 118,
      125, 132, 139, 146, 153, 160, 167, 174, 181, 188] = Inr (fst (blocks ([3, 10, 17, 24, 31, 38, 45, 52, 59, 66, 73, 80, 87, 94, 101, 108, 115, 122, 129,
      136, 143, 150, 157, 164, 171, 178, 185, 192, 199, 206, 213, 220, 227, 234, 241,
      248, 255, 6, 13, 20, 27, 34, 41, 48, 55, 62, 69, 76, 83, 90, 97, 104, 111, 118,
      125, 132, 139, 146, 153, 160, 167, 174, 181, 188], None)))"
    using C4_block_parser [of "[3, 10, 17, 24, 31, 38, 45, 52, 59, 66, 73, 80, 87, 94, 101, 108, 115, 122, 129,
      136, 143, 150, 157, 164, 171, 178, 185, 192, 199, 206, 213, 220, 227, 234, 241,
      248, 255, 6, 13, 20, 27, 34, 41, 48, 55, 62, 69, 76, 83, 90, 97, 104, 111, 118,
      125, 132, 139, 146, 153, 160, 167, 174, 181, 188]" "[1, 2, 3, 4]"] by simp
  then have r: "blocks_rec [3, 10, 17, 24, 31, 38, 45, 52, 59, 66, 73, 80, 87, 94, 101, 108, 115, 122, 129,
      136, 143, 150, 157, 164, 171, 178, 185, 192, 199, 206, 213, 220, 227, 234, 241,
      248, 255, 6, 13, 20, 27, 34, 41, 48, 55, 62, 69, 76, 83, 90, 97, 104, 111, 118,
      125, 132, 139, 146, 153, 160, 167, 174, 181, 188] = Inr [[50991384, 522595636, 994199888, 1465804140, 1937408392, 2409012644, 2880616896,
      3352221148, 3823825400, 4278586644, 455223600, 926827852, 1398432104, 1870036356,
      2341640608, 2813244860]]"
    by (simp only: e fst_conv)
  have w: "words [1, 2, 3, 4] = Inr [0x01020304]"
    by (simp add: eval_simps)
  have "blocks ([1, 2, 3], None) = ([], Some IncompleteBlock) \<and>
      drain (blocks ([1, 2, 3], None)) = Inl IncompleteBlock \<and>
      blocks_rec [1, 2, 3] = Inl IncompleteBlock \<and> words [1, 2, 3] = Inl IncompleteWord"
    using C4_block_parser [of "[1, 2, 3]" "[1, 2, 3]"] by (simp add: chunks_def drain_def)
  then show ?thesis
    using e r w by (simp add: drain_def)
qed

text \<open>
  C5, as amended. For every string whose code units are all at most \<open>0xFF\<close> the two
  implementations return the same rendered five-word digest, and for every input that is
  not a string both fail with "unsupported input type". For a string with larger code units
  they agree as long as every block word built from the padded code units is at most
  \<open>2 ^ 32 - 1\<close>; when one is larger, part_000 throws "not uint32" (its \<open>digest\<close> checks
  the words of each block) while sha1.js still returns a digest. The stack and the memory
  that the recursion of part_000 needs are left aside, as the specification leaves them
  aside ("equivalent behavior, better stack/performance characteristics").
\<close>

theorem C5_implementations_agree:
  "((\<forall>c\<in>set s. c \<le> 0xFF) \<longrightarrow>
      sha1_rec (JSString s) = Inr (map toString16 (map uint (sha1_spec (map uint s)))) \<and>
      sha1 (JSString s) = Inr (map toString16 (map uint (sha1_spec (map uint s))))) \<and>
   ((\<forall>s. v \<noteq> JSString s) \<longrightarrow>
      sha1_rec v = Inl UnsupportedInputType \<and> sha1 v = Inl UnsupportedInputType) \<and>
   sha1 (JSString s) = Inr (map toString16 (map uint (sha1_spec (map uint s)))) \<and>
   length (sha1_spec (map uint s)) = 5 \<and>
   ((\<forall>b\<in>set (parse_spec (pad_spec (map uint s))). \<forall>w\<in>set b. w \<le> 2 ^ 32 - 1) \<longrightarrow>
      sha1_rec (JSString s) = sha1 (JSString s)) \<and>
   (\<not> (\<forall>b\<in>set (parse_spec (pad_spec (map uint s))). \<forall>w\<in>set b. w \<le> 2 ^ 32 - 1) \<longrightarrow>
      sha1_rec (JSString s) = Inl NotUint32)"
proof -
  have nonneg: "0 \<le> w" if "b \<in> set (parse_spec (pad_spec (map uint s)))" "w \<in> set b" for b w
    using that by (rule parse_spec_nonneg [OF pad_spec_nonneg [OF map_uint_nonneg]])
  have u: "(\<forall>b\<in>set (parse_spec (pad_spec (map uint s))). \<forall>w\<in>set b. isUint32 w) \<longleftrightarrow>
      (\<forall>b\<in>set (parse_spec (pad_spec (map uint s))). \<forall>w\<in>set b. w \<le> 2 ^ 32 - 1)"
    using nonneg by (auto simp: isUint32_def)
  have a: "(\<forall>c\<in>set s. c \<le> 0xFF) \<longrightarrow>
      sha1_rec (JSString s) = Inr (map toString16 (map uint (sha1_spec (map uint s)))) \<and>
      sha1 (JSString s) = Inr (map toString16 (map uint (sha1_spec (map uint s))))"
    using sha1_rec_byte_string [of s] sha1_string [of s] by blast
  have b: "(\<forall>s. v \<noteq> JSString s) \<longrightarrow>
      sha1_rec v = Inl UnsupportedInputType \<and> sha1 v = Inl UnsupportedInputType"
    using sha1_not_string [of v] by blast
  have c: "sha1 (JSString s) = Inr (map toString16 (map uint (sha1_spec (map uint s))))"
    by (rule sha1_string)
  have l: "length (sha1_spec (map uint s)) = 5"
    by (rule length_sha1_spec)
  have d: "(\<forall>b\<in>set (parse_spec (pad_spec (map uint s))). \<forall>w\<in>set b. w \<le> 2 ^ 32 - 1) \<longrightarrow>
      sha1_rec (JSString s) = sha1 (JSString s)"
    unfolding u [symmetric] sha1_rec_string sha1_string by simp
  have e: "\<not> (\<forall>b\<in>set (parse_spec (pad_spec (map uint s))). \<forall>w\<in>set b. w \<le> 2 ^ 32 - 1) \<longrightarrow>
      sha1_rec (JSString s) = Inl NotUint32"
    unfolding u [symmetric] sha1_rec_string by simp
  show ?thesis
    using a b c l d e by (intro conjI)
qed

theorem C5_implementations_agree_witness:
  "list_all (\<lambda>c. c \<le> 0xFF) [0x61, 0x62, 0x63 :: 16 word] \<and>
   sha1_rec (JSString [0x61, 0x62, 0x63]) = sha1 (JSString [0x61, 0x62, 0x63]) \<and>
   (\<forall>s. JSNumber 5 \<noteq> JSString s) \<and>
   sha1_rec (JSNumber 5) = Inl UnsupportedInputType \<and>
   sha1 (JSNumber 5) = Inl UnsupportedInputType \<and>
   \<not> (\<forall>b\<in>set (parse_spec (pad_spec (map uint [0x100 :: 16 word]))).
        \<forall>w\<in>set b. w \<le> 2 ^ 32 - 1)"
proof -
  have h: "\<forall>c\<in>set [0x61, 0x62, 0x63 :: 16 word]. c \<le> 0xFF" by simp
  have n: "\<forall>s. JSNumber 5 \<noteq> JSString s" by simp
  note t = C5_implementations_agree [of "[0x61, 0x62, 0x63]" "JSNumber 5"]
  note u = C5_implementations_agree [of "[0x100]" "JSNumber 5"]
  have "sha1_rec (JSString [0x61, 0x62, 0x63]) =
        Inr (map toString16 (map uint (sha1_spec (map uint [0x61, 0x62, 0x63 :: 16 word])))) \<and>
      sha1 (JSString [0x61, 0x62, 0x63]) =
        Inr (map toString16 (map uint (sha1_spec (map uint [0x61, 0x62, 0x63 :: 16 word]))))"
    using t [THEN conjunct1] h by (rule mp)
  then have a: "sha1_rec (JSString [0x61, 0x62, 0x63]) = sha1 (JSString [0x61, 0x62, 0x63])"
    by simp
  have b: "sha1_rec (JSNumber 5) = Inl UnsupportedInputType \<and>
      sha1 (JSNumber 5) = Inl UnsupportedInputType"
    using t [THEN conjunct2, THEN conjunct1] n by (rule mp)
  have c: "\<not> (\<forall>b\<in>set (parse_spec (pad_spec (map uint [0x100 :: 16 word]))).
        \<forall>w\<in>set b. w \<le> 2 ^ 32 - 1)"
  proof
    assume "\<forall>b\<in>set (parse_spec (pad_spec (map uint [0x100 :: 16 word]))).
        \<forall>w\<in>set b. w \<le> 2 ^ 32 - 1"
    then have "sha1_rec (JSString [0x100]) = sha1 (JSString [0x100])"
      using u [THEN conjunct2, THEN conjunct2, THEN conjunct2, THEN conjunct2, THEN conjunct1]
      by (rule mp [rotated])
    then show False
      by (simp add: sha1_unit_0x100 sha1_rec_unit_0x100)
  qed
  have h': "list_all (\<lambda>c. c \<le> 0xFF) [0x61, 0x62, 0x63 :: 16 word]"
    by simp
  show ?thesis
    using h' a n b c by (intro conjI) simp_all
qed

text \<open>
  The claim as it was stated fails for the string of the single code unit \<open>0x100\<close>:
  sha1.js returns a digest and part_000 throws.
\<close>

theorem C5_not_uint32_counterexample:
  "sha1 (JSString [0x100]) =
     Inr [''5ba93c9d'', ''b0cff93f'', ''52b521d7'', ''420e43f6'', ''eda2784f''] \<and>
   sha1_rec (JSString [0x100]) = Inl NotUint32"
  using sha1_unit_0x100 sha1_rec_unit_0x100 by (rule conjI)

text \<open>
  C6, as amended. For every 32-bit word \<open>w\<close> and every rotation amount \<open>r\<close> from 1 to 31,
  rotating left by \<open>r\<close> and then by \<open>32 - r\<close> gives \<open>w\<close> back. For the amount 0 the first
  rotation returns \<open>w\<close>, and the second one, by 32, throws "invalid left shift amount":
  \<open>ROTL\<close> accepts the amounts 0 to 31 only.
\<close>

theorem C6_rotation_roundtrip:
  assumes "isUint32 w"
  shows "(1 \<le> r \<and> r \<le> 31 \<longrightarrow>
            bnd (ROTL r w) (ROTL (32 - r)) = Inr w \<and>
            bnd (ROTL_rec r w) (ROTL_rec (32 - r)) = Inr w) \<and>
         ROTL 0 w = Inr w \<and> ROTL 32 w = Inl InvalidShiftAmount \<and>
         bnd (ROTL 0 w) (ROTL (32 - 0)) = Inl InvalidShiftAmount \<and>
         ROTL_rec 0 w = Inr w \<and> ROTL_rec 32 w = Inl InvalidShiftAmount \<and>
         bnd (ROTL_rec 0 w) (ROTL_rec (32 - 0)) = Inl InvalidShiftAmount"
proof -
  have rec: "ROTL_rec = ROTL"
    by (intro ext) (rule ROTL_rec_eq)
  have a: "1 \<le> r \<and> r \<le> 31 \<longrightarrow>
      bnd (ROTL r w) (ROTL (32 - r)) = Inr w \<and> bnd (ROTL_rec r w) (ROTL_rec (32 - r)) = Inr w"
    using ROTL_roundtrip [OF assms, of r] by (simp add: rec)
  have z: "ROTL 0 w = Inr w"
    using assms by (rule ROTL_zero)
  have t: "ROTL 32 w = Inl InvalidShiftAmount"
    using assms by (rule ROTL_32)
  have b: "bnd (ROTL 0 w) (ROTL (32 - 0)) = Inl InvalidShiftAmount"
    by (simp add: z t)
  show ?thesis
    using a z t b by (simp only: rec simp_thms)
qed

theorem C6_rotation_roundtrip_witness:
  "isUint32 0x80000001 \<and> (1::int) \<le> 5 \<and> (5::int) \<le> 31 \<and>
   ROTL 5 0x80000001 = Inr 0x30 \<and>
   bnd (ROTL 5 0x80000001) (ROTL (32 - 5)) = Inr 0x80000001 \<and>
   bnd (ROTL_rec 5 0x80000001) (ROTL_rec (32 - 5)) = Inr 0x80000001 \<and>
   ROTL 0 0x80000001 = Inr 0x80000001 \<and> ROTL 32 0x80000001 = Inl InvalidShiftAmount"
proof -
  have h: "isUint32 0x80000001"
    by (simp add: isUint32_def)
  have r: "(1::int) \<le> 5 \<and> (5::int) \<le> 31"
    by simp
  have "ROTL 5 0x80000001 = Inr 0x30"
    using ROTL_word [of 5 "0x80000001"] by (simp add: word_rotl_32)
  then show ?thesis
    using h C6_rotation_roundtrip [OF h, of 5] by simp
qed

text \<open>
  The claim as it was stated includes the amount 0, and there the second rotation, by 32,
  throws "invalid left shift amount".
\<close>

theorem C6_rotation_by_32_counterexample:
  "ROTL 0 5 = Inr 5 \<and> bnd (ROTL 0 5) (ROTL (32 - 0)) = Inl InvalidShiftAmount \<and>
   ROTL_rec 0 5 = Inr 5 \<and> bnd (ROTL_rec 0 5) (ROTL_rec (32 - 0)) = Inl InvalidShiftAmount"
proof -
  have "ROTL 0 5 = Inr 5"
    using ROTL_word [of 0 5] by (simp add: word_rotl_32)
  moreover have "ROTL 32 5 = Inl InvalidShiftAmount"
    by (simp add: ROTL_def isUint32_def)
  ultimately show ?thesis
    by (simp add: ROTL_rec_eq)
qed

text \<open>
  C7, as amended. The byte source makes no range check: for every string it yields the
  character code of every code unit as it is, values above 255 included, and throws
  nothing. sha1.js then returns a digest for every string. part_000 rejects a string only
  later and only with "not uint32", exactly when a block word built from the padded code
  units exceeds \<open>2 ^ 32 - 1\<close> (the stack and the memory its recursion needs left aside).
\<close>

theorem C7_bytes_unchecked:
  "bytes (JSString s) = (map uint s, None) \<and>
   bytes_rec (JSString s) = Inr (map uint s) \<and>
   drain (blocks (padMessage (bytes (JSString s)))) =
     Inr (parse_spec (pad_spec (map uint s))) \<and>
   sha1 (JSString s) = Inr (map toString16 (map uint (sha1_spec (map uint s)))) \<and>
   length (sha1_spec (map uint s)) = 5 \<and>
   (sha1_rec (JSString s) = Inl NotUint32 \<longleftrightarrow>
      \<not> (\<forall>b\<in>set (parse_spec (pad_spec (map uint s))). \<forall>w\<in>set b. w \<le> 2 ^ 32 - 1)) \<and>
   (sha1_rec (JSString s) \<noteq> Inl NotUint32 \<longrightarrow>
      sha1_rec (JSString s) = Inr (map toString16 (map uint (sha1_spec (map uint s)))))"
proof -
  have nonneg: "0 \<le> w" if "b \<in> set (parse_spec (pad_spec (map uint s)))" "w \<in> set b" for b w
    using that by (rule parse_spec_nonneg [OF pad_spec_nonneg [OF map_uint_nonneg]])
  have u: "(\<forall>b\<in>set (parse_spec (pad_spec (map uint s))). \<forall>w\<in>set b. isUint32 w) \<longleftrightarrow>
      (\<forall>b\<in>set (parse_spec (pad_spec (map uint s))). \<forall>w\<in>set b. w \<le> 2 ^ 32 - 1)"
    using nonneg by (auto simp: isUint32_def)
  have a: "bytes (JSString s) = (map uint s, None)"
    by (simp add: bytes_def)
  have b: "bytes_rec (JSString s) = Inr (map uint s)"
    by (simp add: bytes_rec_def)
  have c: "drain (blocks (padMessage (bytes (JSString s)))) =
      Inr (parse_spec (pad_spec (map uint s)))"
    by (simp add: a padMessage_spec blocks_parse length_pad_spec_mod drain_def)
  have d: "sha1 (JSString s) = Inr (map toString16 (map uint (sha1_spec (map uint s))))"
    by (rule sha1_string)
  have l: "length (sha1_spec (map uint s)) = 5"
    by (rule length_sha1_spec)
  have e: "sha1_rec (JSString s) = Inl NotUint32 \<longleftrightarrow>
      \<not> (\<forall>b\<in>set (parse_spec (pad_spec (map uint s))). \<forall>w\<in>set b. w \<le> 2 ^ 32 - 1)"
    unfolding u [symmetric] sha1_rec_string by simp
  have f: "sha1_rec (JSString s) \<noteq> Inl NotUint32 \<longrightarrow>
      sha1_rec (JSString s) = Inr (map toString16 (map uint (sha1_spec (map uint s))))"
    unfolding sha1_rec_string by simp
  show ?thesis
    using a b c d l e f by (intro conjI)
qed

theorem C7_bytes_unchecked_witness:
  "bytes (JSString [0x100]) = ([0x100], None) \<and>
   sha1_rec (JSString [0x61, 0x62, 0x63]) \<noteq> Inl NotUint32 \<and>
   sha1_rec (JSString [0x61, 0x62, 0x63]) =
     Inr (map toString16 (map uint (sha1_spec (map uint [0x61, 0x62, 0x63 :: 16 word])))) \<and>
   sha1_rec (JSString [0x100]) = Inl NotUint32 \<and>
   \<not> (\<forall>b\<in>set (parse_spec (pad_spec (map uint [0x100 :: 16 word]))).
        \<forall>w\<in>set b. w \<le> 2 ^ 32 - 1)"
proof -
  note t = C7_bytes_unchecked [of "[0x100]"]
  note v = C7_bytes_unchecked [of "[0x61, 0x62, 0x63]"]
  have a: "bytes (JSString [0x100]) = ([0x100], None)"
    using t [THEN conjunct1] by simp
  have "\<forall>c\<in>set [0x61, 0x62, 0x63 :: 16 word]. c \<le> 0xFF" by simp
  then have "sha1_rec (JSString [0x61, 0x62, 0x63]) =
      Inr (map toString16 (map uint (sha1_spec (map uint [0x61, 0x62, 0x63 :: 16 word]))))"
    by (rule sha1_rec_byte_string)
  then have n: "sha1_rec (JSString [0x61, 0x62, 0x63]) \<noteq> Inl NotUint32"
    by simp
  have b: "sha1_rec (JSString [0x61, 0x62, 0x63]) =
      Inr (map toString16 (map uint (sha1_spec (map uint [0x61, 0x62, 0x63 :: 16 word]))))"
    using v [THEN conjunct2, THEN conjunct2, THEN conjunct2, THEN conjunct2, THEN conjunct2,
      THEN conjunct2] n by (rule mp)
  have c: "\<not> (\<forall>b\<in>set (parse_spec (pad_spec (map uint [0x100 :: 16 word]))).
        \<forall>w\<in>set b. w \<le> 2 ^ 32 - 1)"
    using t [THEN conjunct2, THEN conjunct2, THEN conjunct2, THEN conjunct2, THEN conjunct2,
      THEN conjunct1] sha1_rec_unit_0x100 by (rule iffD1)
  show ?thesis
    using a n b sha1_rec_unit_0x100 c by (intro conjI)
qed

text \<open>
  The claim as it was stated fails for the string of the single code unit \<open>0x100\<close>:
  the byte source yields 256 and a digest is computed from it.
\<close>

theorem C7_out_of_range_byte_counterexample:
  "bytes (JSString [0x100]) = ([256], None) \<and>
   \<not> (0 \<le> (256 :: int) \<and> (256 :: int) \<le> 255) \<and>
   sha1 (JSString [0x100]) =
     Inr [''5ba93c9d'', ''b0cff93f'', ''52b521d7'', ''420e43f6'', ''eda2784f'']"
  using sha1_unit_0x100 by (simp add: bytes_def)

text \<open>
  C8. For every input that is not a string both implementations fail with "unsupported
  input type" and produce no digest; in sha1.js the generators yield no block before the
  exception. For a string this exception is not raised.
\<close>

theorem C8_unsupported_input_type:
  "((\<forall>s. v \<noteq> JSString s) \<longrightarrow>
      sha1 v = Inl UnsupportedInputType \<and> sha1_rec v = Inl UnsupportedInputType \<and>
      blocks (padMessage (bytes v)) = ([], Some UnsupportedInputType)) \<and>
   sha1 (JSString s) \<noteq> Inl UnsupportedInputType \<and>
   sha1_rec (JSString s) \<noteq> Inl UnsupportedInputType"
proof -
  have "sha1 (JSString s) \<noteq> Inl UnsupportedInputType"
    unfolding sha1_string by simp
  moreover have "sha1_rec (JSString s) \<noteq> Inl UnsupportedInputType"
    unfolding sha1_rec_string by simp
  ultimately show ?thesis
    using sha1_not_string [of v] by blast
qed

theorem C8_unsupported_input_type_witness:
  "(\<forall>s. JSNumber 5 \<noteq> JSString s) \<and>
   sha1 (JSNumber 5) = Inl UnsupportedInputType \<and>
   sha1_rec (JSNumber 5) = Inl UnsupportedInputType \<and>
   blocks (padMessage (bytes (JSNumber 5))) = ([], Some UnsupportedInputType)"
proof -
  have n: "\<forall>s. JSNumber 5 \<noteq> JSString s" by simp
  show ?thesis
    using n C8_unsupported_input_type [of "JSNumber 5" "[]", THEN conjunct1, THEN mp, OF n]
    by (intro conjI) simp_all
qed

text \<open>
  C9. For words \<open>B\<close>, \<open>C\<close>, \<open>D\<close> the selector throws "invalid f[i] number" exactly
  when \<open>t < 0\<close> or \<open>t > 79\<close>, and the round constant throws "invalid K[i] number" exactly
  then. (The selector checks its three words first, so an argument that is not a word gives
  "not uint32" whatever \<open>t\<close> is.) The loop of the rounds, started at a counter that is
  not negative, no step \<open>digest\<close> and no run of \<open>sha1\<close> ends with one of the two
  exceptions, whatever the input: the rounds call both functions with \<open>t\<close> from 0 to 79
  only.
\<close>

theorem C9_invalid_round_index:
  "(isUint32 B \<and> isUint32 C \<and> isUint32 D \<longrightarrow>
      (f t B C D = Inl InvalidFNumber \<longleftrightarrow> t < 0 \<or> t > 79) \<and>
      (f_rec t B C D = Inl InvalidFNumber \<longleftrightarrow> t < 0 \<or> t > 79)) \<and>
   (f t B C D = Inl InvalidFNumber \<longleftrightarrow>
      (t < 0 \<or> t > 79) \<and> isUint32 B \<and> isUint32 C \<and> isUint32 D) \<and>
   (K t = Inl InvalidKNumber \<longleftrightarrow> t < 0 \<or> t > 79) \<and>
   (0 \<le> t \<longrightarrow>
      rounds_loop W t st \<noteq> Inl InvalidFNumber \<and> rounds_loop W t st \<noteq> Inl InvalidKNumber \<and>
      rounds_loop_rec W t st \<noteq> Inl InvalidFNumber \<and>
      rounds_loop_rec W t st \<noteq> Inl InvalidKNumber) \<and>
   digest block sm \<noteq> Inl InvalidFNumber \<and> digest block sm \<noteq> Inl InvalidKNumber \<and>
   digest_rec bl sm \<noteq> Inl InvalidFNumber \<and> digest_rec bl sm \<noteq> Inl InvalidKNumber \<and>
   sha1 v \<noteq> Inl InvalidFNumber \<and> sha1 v \<noteq> Inl InvalidKNumber \<and>
   sha1_rec v \<noteq> Inl InvalidFNumber \<and> sha1_rec v \<noteq> Inl InvalidKNumber"
proof -
  have f: "isUint32 B \<and> isUint32 C \<and> isUint32 D \<longrightarrow>
      (f t B C D = Inl InvalidFNumber \<longleftrightarrow> t < 0 \<or> t > 79) \<and>
      (f_rec t B C D = Inl InvalidFNumber \<longleftrightarrow> t < 0 \<or> t > 79)"
    by (simp add: f_rec_eq f_index_error)
  have f': "f t B C D = Inl InvalidFNumber \<longleftrightarrow>
      (t < 0 \<or> t > 79) \<and> isUint32 B \<and> isUint32 C \<and> isUint32 D"
    using f_index_error [of t B C D] by blast
  have k: "K t = Inl InvalidKNumber \<longleftrightarrow> t < 0 \<or> t > 79"
    by (simp add: K_index_error)
  have l: "0 \<le> t \<longrightarrow>
      rounds_loop W t st \<noteq> Inl InvalidFNumber \<and> rounds_loop W t st \<noteq> Inl InvalidKNumber \<and>
      rounds_loop_rec W t st \<noteq> Inl InvalidFNumber \<and>
      rounds_loop_rec W t st \<noteq> Inl InvalidKNumber"
    using rounds_loop_error [of t W st] by (auto simp: rounds_loop_rec_eq)
  have d: "digest block sm \<noteq> Inl InvalidFNumber \<and> digest block sm \<noteq> Inl InvalidKNumber"
    using digest_error [of block sm] by auto
  have r: "digest_rec bl sm \<noteq> Inl InvalidFNumber \<and> digest_rec bl sm \<noteq> Inl InvalidKNumber"
    using digest_rec_error [of bl sm] by auto
  have s: "sha1 v \<noteq> Inl InvalidFNumber \<and> sha1 v \<noteq> Inl InvalidKNumber \<and>
      sha1_rec v \<noteq> Inl InvalidFNumber \<and> sha1_rec v \<noteq> Inl InvalidKNumber"
  proof (cases "\<exists>s. v = JSString s")
    case True
    then obtain s' where v: "v = JSString s'" by blast
    show ?thesis
      unfolding v sha1_rec_string sha1_string by simp
  next
    case False
    then show ?thesis
      using sha1_not_string [of v] by simp
  qed
  show ?thesis
    using f f' k l d r s by (intro conjI) simp_all
qed

theorem C9_invalid_round_index_witness:
  "isUint32 1 \<and> isUint32 2 \<and> isUint32 3 \<and>
   f 80 1 2 3 = Inl InvalidFNumber \<and> f (- 1) 1 2 3 = Inl InvalidFNumber \<and>
   f 79 1 2 3 \<noteq> Inl InvalidFNumber \<and> f 0 1 2 3 \<noteq> Inl InvalidFNumber \<and>
   K 80 = Inl InvalidKNumber \<and> K 79 \<noteq> Inl InvalidKNumber"
proof -
  have h: "isUint32 1 \<and> isUint32 2 \<and> isUint32 3"
    by (simp add: isUint32_def)
  have "f t 1 2 3 = Inl InvalidFNumber \<longleftrightarrow> t < 0 \<or> t > 79" for t
    using C9_invalid_round_index [where B = 1 and C = 2 and D = 3 and t = t,
        THEN conjunct1, THEN mp, OF h]
    by (rule conjunct1)
  moreover have "K t = Inl InvalidKNumber \<longleftrightarrow> t < 0 \<or> t > 79" for t
    using C9_invalid_round_index [where B = 1 and C = 2 and D = 3 and t = t, THEN conjunct2, THEN conjunct2] by (rule conjunct1)
  ultimately show ?thesis
    using h by simp
qed

text \<open>
  C10. Both implementations render each of the five digest words with \<open>toString(16)\<close>.
  The rendering of a word \<open>w\<close> is its lowercase hexadecimal numeral, not padded on the
  left: its characters are hexadecimal digits, read back they give \<open>w\<close>, and the first one
  is not \<open>0\<close> unless \<open>w\<close> is 0. So a word below \<open>2 ^ 28\<close> is rendered with fewer than eight
  digits, and only a word from \<open>2 ^ 28\<close> on with eight: the output is not always five
  groups of eight. The digest of \<open>"i"\<close> begins with the word \<open>0x042dc451\<close>, which both
  implementations render as \<open>42dc451\<close>.
\<close>

theorem C10_no_zero_padding:
  "sha1 (JSString s) = Inr (map toString16 (map uint (sha1_spec (map uint s)))) \<and>
   ((\<forall>c\<in>set s. c \<le> 0xFF) \<longrightarrow>
      sha1_rec (JSString s) = Inr (map toString16 (map uint (sha1_spec (map uint s))))) \<and>
   (sha1_rec (JSString s) = Inr (map toString16 (map uint (sha1_spec (map uint s)))) \<or>
    sha1_rec (JSString s) = Inl NotUint32) \<and>
   length (sha1_spec (map uint s)) = 5 \<and>
   (0 \<le> w \<longrightarrow>
      set (toString16 w) \<subseteq> set ''0123456789abcdef'' \<and>
      foldl (\<lambda>a c. a * 16 + hex_value c) 0 (toString16 w) = w \<and>
      toString16 w \<noteq> [] \<and> (w \<noteq> 0 \<longrightarrow> hd (toString16 w) \<noteq> CHR ''0'')) \<and>
   (0 \<le> w \<and> w < 2 ^ 28 \<longrightarrow> length (toString16 w) < 8) \<and>
   (isUint32 w \<and> 2 ^ 28 \<le> w \<longrightarrow> length (toString16 w) = 8) \<and>
   toString16 0x042dc451 = ''42dc451'' \<and>
   sha1 (JSString [0x69]) =
     Inr [''42dc451'', ''2fa3d391'', ''c5170cf3'', ''aa61e6a6'', ''38f84342''] \<and>
   sha1_rec (JSString [0x69]) =
     Inr [''42dc451'', ''2fa3d391'', ''c5170cf3'', ''aa61e6a6'', ''38f84342'']"
proof -
  have g: "sha1 (JSString s) = Inr (map toString16 (map uint (sha1_spec (map uint s))))"
    by (rule sha1_string)
  have r: "(\<forall>c\<in>set s. c \<le> 0xFF) \<longrightarrow>
      sha1_rec (JSString s) = Inr (map toString16 (map uint (sha1_spec (map uint s))))"
    using sha1_rec_byte_string [of s] by blast
  have d: "sha1_rec (JSString s) = Inr (map toString16 (map uint (sha1_spec (map uint s)))) \<or>
      sha1_rec (JSString s) = Inl NotUint32"
    unfolding sha1_rec_string by (simp split: if_splits)
  have l: "length (sha1_spec (map uint s)) = 5"
    by (rule length_sha1_spec)
  have n: "0 \<le> w \<longrightarrow>
      set (toString16 w) \<subseteq> set ''0123456789abcdef'' \<and>
      foldl (\<lambda>a c. a * 16 + hex_value c) 0 (toString16 w) = w \<and>
      toString16 w \<noteq> [] \<and> (w \<noteq> 0 \<longrightarrow> hd (toString16 w) \<noteq> CHR ''0'')"
  proof
    assume w: "0 \<le> w"
    then have t: "toString16 w = hex_digits w"
      by (simp add: toString16_def)
    show "set (toString16 w) \<subseteq> set ''0123456789abcdef'' \<and>
      foldl (\<lambda>a c. a * 16 + hex_value c) 0 (toString16 w) = w \<and>
      toString16 w \<noteq> [] \<and> (w \<noteq> 0 \<longrightarrow> hd (toString16 w) \<noteq> CHR ''0'')"
      unfolding t
      using hex_digits_chars [OF w] hex_digits_value [OF w] hex_digits_no_leading_zero [OF w]
      by (intro conjI) simp_all
  qed
  have s: "0 \<le> w \<and> w < 2 ^ 28 \<longrightarrow> length (toString16 w) < 8"
    using toString16_short [of w] by blast
  have f: "isUint32 w \<and> 2 ^ 28 \<le> w \<longrightarrow> length (toString16 w) = 8"
    using toString16_full [of w] by blast
  have e: "toString16 0x042dc451 = ''42dc451''"
    by (simp add: eval_simps)
  have "\<forall>c\<in>set [0x69 :: 16 word]. c \<le> 0xFF" by simp
  then have "sha1_rec (JSString [0x69]) = sha1 (JSString [0x69])"
    by (simp only: sha1_rec_byte_string sha1_string)
  then have i: "sha1_rec (JSString [0x69]) =
      Inr [''42dc451'', ''2fa3d391'', ''c5170cf3'', ''aa61e6a6'', ''38f84342'']"
    by (simp only: sha1_unit_0x69)
  show ?thesis
    using g r d l n s f e sha1_unit_0x69 i by (intro conjI)
qed

theorem C10_no_zero_padding_witness:
  "list_all (\<lambda>c. c \<le> 0xFF) [0x69 :: 16 word] \<and>
   (0::int) \<le> 0x042dc451 \<and> (0x042dc451::int) < 2 ^ 28 \<and>
   length (toString16 0x042dc451) = 7 \<and>
   isUint32 0xda39a3ee \<and> (2::int) ^ 28 \<le> 0xda39a3ee \<and>
   toString16 0xda39a3ee = ''da39a3ee'' \<and> length (toString16 0xda39a3ee) = 8 \<and>
   hd (toString16 0x042dc451) \<noteq> CHR ''0'' \<and>
   foldl (\<lambda>a c. a * 16 + hex_value c) 0 ''42dc451'' = 0x042dc451"
proof -
  note t = C10_no_zero_padding [of "[0x69]" "0x042dc451"]
  note u = C10_no_zero_padding [of "[0x69]" "0xda39a3ee"]
  have e: "toString16 0x042dc451 = ''42dc451''"
    by (simp add: eval_simps)
  have e': "toString16 0xda39a3ee = ''da39a3ee''"
    by (simp add: eval_simps)
  have h: "isUint32 0xda39a3ee \<and> (2::int) ^ 28 \<le> 0xda39a3ee"
    by (simp add: isUint32_def)
  have "length (toString16 0xda39a3ee) = 8"
    using u [THEN conjunct2, THEN conjunct2, THEN conjunct2, THEN conjunct2, THEN conjunct2,
      THEN conjunct2, THEN conjunct1, THEN mp, OF h] .
  moreover have "foldl (\<lambda>a c. a * 16 + hex_value c) 0 (toString16 0x042dc451) = 0x042dc451"
    using t [THEN conjunct2, THEN conjunct2, THEN conjunct2, THEN conjunct2, THEN conjunct1]
    by simp
  ultimately show ?thesis
    using h e e' by simp
qed

end
